theory Spec2Isabelle
  imports
    Complex_Main
    "HOL-Library.Monad_Syntax"
    "HOL-Library.Signed_Division"
    "HOL-Library.Word"
begin

section \<open>The Mandelbrot renderer of main.cu\<close>

text \<open>
  The program renders frames of the Mandelbrot set: every pixel is mapped to a complex
  number, the map \<open>z \<mapsto> z\<^sup>2 + c\<close> is iterated until the magnitude reaches 2 or a step
  cap is hit, and the step count is turned into a colour through an HSV intermediate.

  Conventions of the embedding.
  \<^item> A C \<open>double\<close> is a real number. In \<open>map_pixel\<close>, in the brightness of a pixel and
    in \<open>main\<close> (the estimate and the zoom of the frames) every operation rounds its exact
    result to binary64 (\<open>rnd\<close>: to the nearest double, ties to the even significand,
    gradual underflow), one rounding for each operation of the source, and a decimal
    literal is the double nearest to it. No product is fused with a sum. The exponent has
    no upper limit: where the code overflows to an infinity the model has a finite number,
    and a statement that pins a result has bounds that keep the code away from overflow.
  \<^item> \<open>iterate\<close> and \<open>hsv_to_rgb\<close> compute with the exact reals. What is proved of them is a
    bound on the counter, runs on values that binary64 holds exactly, the choice of a
    branch and the range of the channels, none of which depends on the rounding.
  \<^item> An operation whose IEEE result is not a real number (a division by zero, the
    logarithm of a non-positive number) has the value \<open>None\<close>.
  \<^item> A C \<open>int\<close> is an \<open>int\<close> without a range limit; \<open>/\<close> and \<open>%\<close> on ints are
    \<open>sdiv\<close> and \<open>smod\<close> (truncation towards zero), undefined for a zero divisor
    (\<open>None\<close>).
  \<^item> The conversion of a \<open>double\<close> to \<open>int\<close> truncates towards zero and is undefined
    (\<open>None\<close>) when the truncated value is no 32-bit int.
  \<^item> A loop that does not return has the value \<open>None\<close> as well.
  \<^item> The global constants that main.cu fixes at compile time are the fields of the
    record \<open>params\<close>; every function takes the record as its first argument and
    \<open>reference\<close> holds the values of the source.
\<close>

subsection \<open>Rounding to binary64\<close>

text \<open>
  Rounding of a real to the nearest integer, a tie going to the even one.
\<close>

definition rhe :: "real \<Rightarrow> int" where
  "rhe y =
     (let f = \<lfloor>y\<rfloor>; d = y - real_of_int f
      in if d < 1 / 2 then f else if 1 / 2 < d then f + 1 else if even f then f else f + 1)"

text \<open>
  The exponent of the unit in the last place of the doubles around \<open>x\<close>: a double has a
  significand of 53 bits, so for \<open>2^n \<le> |x| < 2^(n+1)\<close> the doubles are the multiples of
  \<open>2^(n-52)\<close>; below \<open>2^-1022\<close>, in the subnormal range, they are the multiples of
  \<open>2^-1074\<close>.
\<close>

definition ulp_exp :: "real \<Rightarrow> int" where
  "ulp_exp x = max (\<lfloor>log 2 \<bar>x\<bar>\<rfloor> - 52) (- 1074)"

text \<open>The double nearest to \<open>x\<close>, ties to even.\<close>

definition rnd :: "real \<Rightarrow> real" where
  "rnd x = (if x = 0 then 0 else real_of_int (rhe (x / 2 powi ulp_exp x)) * 2 powi ulp_exp x)"

subsection \<open>Data\<close>

text \<open>\<open>struct comp { double real; double imag; }\<close>\<close>

record comp =
  real_part :: real
  imag_part :: real

record params =
  max_iter :: int
  img_width :: int
  img_height :: int
  center :: comp
  zoom_start :: real
  zoom_end :: real
  zoom_fact :: real

definition reference :: params where
  "reference =
     \<lparr> max_iter = 2048, img_width = 1920, img_height = 1080,
       center = \<lparr> real_part = rnd (- 0.77568377), imag_part = rnd 0.13646737 \<rparr>,
       zoom_start = 1, zoom_end = rnd (10 ^ 227), zoom_fact = rnd 1.1 \<rparr>"

subsection \<open>Arithmetic of C\<close>

text \<open>
  The four operations on doubles: the exact result, rounded. A zero divisor gives an
  infinity or a NaN, no real number.
\<close>

definition fadd :: "real \<Rightarrow> real \<Rightarrow> real" where
  "fadd a b = rnd (a + b)"

definition fsub :: "real \<Rightarrow> real \<Rightarrow> real" where
  "fsub a b = rnd (a - b)"

definition fmul :: "real \<Rightarrow> real \<Rightarrow> real" where
  "fmul a b = rnd (a * b)"

definition fdiv :: "real \<Rightarrow> real \<Rightarrow> real option" where
  "fdiv a b = (if b = 0 then None else Some (rnd (a / b)))"

text \<open>\<open>log\<close> of math.h, the natural logarithm, taken as correctly rounded.\<close>

definition flog :: "real \<Rightarrow> real option" where
  "flog x = (if 0 < x then Some (rnd (ln x)) else None)"

text \<open>Rounding towards zero, as the conversion of a double to an integer type does.\<close>

definition trunc :: "real \<Rightarrow> int" where
  "trunc x = (if 0 \<le> x then \<lfloor>x\<rfloor> else \<lceil>x\<rceil>)"

text \<open>\<open>fmod x y\<close> of math.h: \<open>x - n * y\<close> for the quotient \<open>n\<close> truncated towards zero.\<close>

definition fmod :: "real \<Rightarrow> real \<Rightarrow> real option" where
  "fmod x y = (if y = 0 then None else Some (x - real_of_int (trunc (x / y)) * y))"

text \<open>Conversion of a double to \<open>int\<close> (32 bits): undefined out of range.\<close>

definition double_to_int :: "real \<Rightarrow> int option" where
  "double_to_int x =
     (if - 2147483649 < x \<and> x < 2147483648 then Some (trunc x) else None)"

text \<open>\<open>a / b\<close> and \<open>a % b\<close> on ints.\<close>

definition idiv :: "int \<Rightarrow> int \<Rightarrow> int option" where
  "idiv a b = (if b = 0 then None else Some (a sdiv b))"

definition imod :: "int \<Rightarrow> int \<Rightarrow> int option" where
  "imod a b = (if b = 0 then None else Some (a smod b))"

subsection \<open>iterate\<close>

text \<open>
  The \<open>while\<close> loop of \<open>iterate\<close>, with the loop variables \<open>z\<close> and \<open>i\<close> as arguments.
\<close>

partial_function (option) iterate_loop :: "params \<Rightarrow> comp \<Rightarrow> comp \<Rightarrow> int \<Rightarrow> int option" where
  "iterate_loop p c z i =
     (if i < max_iter p \<and>
         sqrt (real_part z * real_part z + imag_part z * imag_part z) < 2.0
      then
        let real = real_part z * real_part z - imag_part z * imag_part z + real_part c;
            imag = real_part z * imag_part z * 2.0 + imag_part c
        in iterate_loop p c \<lparr> real_part = real, imag_part = imag \<rparr> (i + 1)
      else Some i)"

definition iterate :: "params \<Rightarrow> comp \<Rightarrow> int option" where
  "iterate p c = iterate_loop p c c 0"

subsection \<open>map-pixel\<close>

text \<open>
  The parameter \<open>center\<close> of the source is \<open>center'\<close> here: it hides the global. The two
  quotients \<open>span / (double)size\<close> and \<open>span / 2.0\<close> are bound to names; every
  operation of the two expressions of the source rounds once, in the order of the source
  (\<open>a / b * c - d + e\<close> is \<open>((a / b) * c - d) + e\<close>). The conversion of an \<open>int\<close> to
  \<open>double\<close> is exact.
\<close>

definition map_pixel :: "params \<Rightarrow> int \<Rightarrow> int \<Rightarrow> real \<Rightarrow> comp \<Rightarrow> comp option" where
  "map_pixel p px py zoom center' = do {
     span_real \<leftarrow> fdiv 4.0 zoom;
     span_imag \<leftarrow> fdiv 2.0 zoom;
     real_step \<leftarrow> fdiv span_real (real_of_int (img_width p));
     real_half \<leftarrow> fdiv span_real 2.0;
     imag_step \<leftarrow> fdiv span_imag (real_of_int (img_height p));
     imag_half \<leftarrow> fdiv span_imag 2.0;
     let real_nozoom = fadd (fsub (fmul real_step (real_of_int px)) real_half)
                            (real_part center');
     let imag_nozoom = fadd (fsub (fmul imag_step (real_of_int py)) imag_half)
                            (imag_part center');
     Some \<lparr> real_part = real_nozoom, imag_part = imag_nozoom \<rparr>
   }"

subsection \<open>hsv-to-rgb\<close>

text \<open>The chain of \<open>if\<close>s that picks the channels before the offset \<open>m\<close> is added.\<close>

definition hsv_sector :: "int \<Rightarrow> real \<Rightarrow> real \<Rightarrow> real \<times> real \<times> real" where
  "hsv_sector h c x =
     (if h \<ge> 0 \<and> h < 60 then (c, x, 0)
      else if h \<ge> 60 \<and> h < 180 then (x, c, x)
      else if h \<ge> 180 \<and> h < 240 then (0, x, c)
      else if h \<ge> 240 \<and> h < 300 then (x, 0, c)
      else (c, 0, x))"

definition hsv_to_rgb :: "int \<Rightarrow> int \<Rightarrow> int \<Rightarrow> (int \<times> int \<times> int) option" where
  "hsv_to_rgb h s v = do {
     let S = real_of_int s / 100.0;
     let V = real_of_int v / 100.0;
     let c = S * V;
     f \<leftarrow> fmod (real_of_int h / 60.0) 2.0;
     let x = c * (1.0 - \<bar>f - 1.0\<bar>);
     let m = V - c;
     let (R, G, B) = hsv_sector h c x;
     r \<leftarrow> double_to_int ((R + m) * 255.0);
     g \<leftarrow> double_to_int ((G + m) * 255.0);
     b \<leftarrow> double_to_int ((B + m) * 255.0);
     Some (r, g, b)
   }"

subsection \<open>plot-pixel\<close>

text \<open>
  The third argument of the call of \<open>hsv_to_rgb\<close> in \<open>plot_pixel\<close>: a double expression
  passed for an \<open>int\<close> parameter.
\<close>

definition brightness :: "params \<Rightarrow> int \<Rightarrow> int option" where
  "brightness p iterations = do {
     q \<leftarrow> fdiv (real_of_int (max_iter p - iterations)) (real_of_int (max_iter p));
     double_to_int (fmul q 100)
   }"

text \<open>The call of \<open>hsv_to_rgb\<close> in \<open>plot_pixel\<close>, from the iteration count to r, g, b.\<close>

definition pixel_colour :: "params \<Rightarrow> int \<Rightarrow> (int \<times> int \<times> int) option" where
  "pixel_colour p iterations = do {
     h \<leftarrow> imod iterations 360;
     v \<leftarrow> brightness p iterations;
     hsv_to_rgb h 100 v
   }"

text \<open>
  \<open>plot_pixel\<close> for the thread of index \<open>i\<close>. Its effect on the buffer is three stores;
  the function returns them in order, each an offset and the byte stored there (the
  conversion of an \<open>int\<close> to \<open>uint8_t\<close> keeps the low 8 bits).
\<close>

type_synonym store = "int \<times> 8 word"

definition plot_pixel :: "params \<Rightarrow> comp \<Rightarrow> real \<Rightarrow> int \<Rightarrow> store list option" where
  "plot_pixel p center' zoom i = do {
     px \<leftarrow> imod i (img_width p);
     py \<leftarrow> idiv i (img_width p);
     c \<leftarrow> map_pixel p px py zoom center';
     iterations \<leftarrow> iterate p c;
     (r, g, b) \<leftarrow> pixel_colour p iterations;
     let byte = 3 * (py * img_width p + px);
     Some [(byte + 0, word_of_int r), (byte + 1, word_of_int g), (byte + 2, word_of_int b)]
   }"

subsection \<open>plot-mandelbrot\<close>

text \<open>
  The indices \<open>threadIdx.x + blockIdx.x * blockDim.x\<close> of the threads of a launch
  \<open><<<block_count, threads_per_block>>>\<close>, block after block.
\<close>

definition launch_indices :: "nat \<Rightarrow> nat \<Rightarrow> int list" where
  "launch_indices block_count threads_per_block =
     concat (map (\<lambda>blockIdx. map (\<lambda>threadIdx. int (threadIdx + blockIdx * threads_per_block))
                                  [0..<threads_per_block])
                 [0..<block_count])"

text \<open>The stores of all threads of a list of indices; undefined as soon as one thread is.\<close>

fun kernel_stores :: "params \<Rightarrow> comp \<Rightarrow> real \<Rightarrow> int list \<Rightarrow> store list option" where
  "kernel_stores p center' zoom [] = Some []"
| "kernel_stores p center' zoom (i # is) = do {
     ws \<leftarrow> plot_pixel p center' zoom i;
     rest \<leftarrow> kernel_stores p center' zoom is;
     Some (ws @ rest)
   }"

text \<open>A store into the buffer; out of bounds it is undefined.\<close>

fun apply_stores :: "8 word list \<Rightarrow> store list \<Rightarrow> 8 word list option" where
  "apply_stores buf [] = Some buf"
| "apply_stores buf ((a, v) # ws) =
     (if 0 \<le> a \<and> a < int (length buf) then apply_stores (buf[nat a := v]) ws else None)"

text \<open>
  The launch \<open>plot_pixel<<<block_count, threads_per_block>>>(buf, center, zoom)\<close> of
  \<open>plot_mandelbrot\<close>: \<open>dispatch_stores\<close> is the list of the stores of all its threads.
  The threads run in parallel on the device; the model lists their stores in the order of
  the thread indices, and \<open>plot_mandelbrot\<close> returns the buffer as it is after the barrier
  \<open>cudaDeviceSynchronize\<close>, all stores done. That the order of the stores does not matter is
  part of what is proved about the dispatch below.
\<close>

definition dispatch_stores :: "params \<Rightarrow> real \<Rightarrow> store list option" where
  "dispatch_stores p zoom =
     (let threads_per_block = 256;
          block_count = (img_width p * img_height p) sdiv threads_per_block
      in kernel_stores p (center p) zoom
           (launch_indices (nat block_count) (nat threads_per_block)))"

definition plot_mandelbrot :: "params \<Rightarrow> 8 word list \<Rightarrow> real \<Rightarrow> 8 word list option" where
  "plot_mandelbrot p buf zoom = do {
     ws \<leftarrow> dispatch_stores p zoom;
     apply_stores buf ws
   }"

subsection \<open>main\<close>

text \<open>
  What one pass of the loop of \<open>main\<close> produces: the number in the file name, the zoom,
  the percentage printed and the pixels handed to the image writer.
\<close>

record frame =
  frame_id :: int
  frame_zoom :: real
  frame_percent :: int
  frame_pixels :: "8 word list"

partial_function (option) frame_loop ::
  "params \<Rightarrow> int \<Rightarrow> 8 word list \<Rightarrow> real \<Rightarrow> int \<Rightarrow> frame list option" where
  "frame_loop p img_count buf zoom img_id =
     (if zoom \<le> zoom_end p then do {
        percent \<leftarrow> idiv (img_id * 100) img_count;
        buf' \<leftarrow> plot_mandelbrot p buf zoom;
        rest \<leftarrow> frame_loop p img_count buf' (fmul zoom (zoom_fact p)) (img_id + 1);
        Some (\<lparr> frame_id = img_id, frame_zoom = zoom, frame_percent = percent,
                 frame_pixels = buf' \<rparr> # rest)
      } else Some [])"

text \<open>The estimate \<open>img_count\<close> computed before the loop.\<close>

definition img_count :: "params \<Rightarrow> int option" where
  "img_count p = do {
     ratio \<leftarrow> fdiv (zoom_end p) (zoom_start p);
     num \<leftarrow> flog ratio;
     den \<leftarrow> flog (zoom_fact p);
     q \<leftarrow> fdiv num den;
     double_to_int q
   }"

text \<open>The buffer comes from the allocator; its first contents are taken to be zero.\<close>

definition main :: "params \<Rightarrow> frame list option" where
  "main p = do {
     let buf = replicate (nat (img_width p * img_height p * 3)) 0;
     n \<leftarrow> img_count p;
     frame_loop p n buf (zoom_start p) 0
   }"

section \<open>Properties\<close>

subsection \<open>Rounding\<close>

lemma rhe_of_int [simp]: "rhe (real_of_int m) = m"
  by (simp add: rhe_def)

lemma rhe_bounds: "\<lfloor>y\<rfloor> \<le> rhe y" "rhe y \<le> \<lfloor>y\<rfloor> + 1"
  by (simp_all add: rhe_def Let_def)

lemma rhe_le_int: "y \<le> real_of_int m \<Longrightarrow> rhe y \<le> m"
proof (cases "y = real_of_int m")
  case True then show ?thesis by simp
next
  case False
  assume "y \<le> real_of_int m"
  with False have "y < real_of_int m" by simp
  then have "\<lfloor>y\<rfloor> < m" by (simp add: floor_less_iff)
  with rhe_bounds(2) [of y] show ?thesis by linarith
qed

lemma rhe_ge_int: "real_of_int m \<le> y \<Longrightarrow> m \<le> rhe y"
proof -
  assume "real_of_int m \<le> y"
  then have "m \<le> \<lfloor>y\<rfloor>" by (simp add: le_floor_iff)
  with rhe_bounds(1) [of y] show ?thesis by linarith
qed

lemma rhe_mono: "x \<le> y \<Longrightarrow> rhe x \<le> rhe y"
proof -
  assume xy: "x \<le> y"
  have fl: "\<lfloor>x\<rfloor> \<le> \<lfloor>y\<rfloor>" using xy by (rule floor_mono)
  show ?thesis
  proof (cases "\<lfloor>x\<rfloor> = \<lfloor>y\<rfloor>")
    case True
    then have "x - real_of_int \<lfloor>x\<rfloor> \<le> y - real_of_int \<lfloor>y\<rfloor>" using xy by simp
    then show ?thesis using True by (auto simp: rhe_def Let_def)
  next
    case False
    with fl have "\<lfloor>x\<rfloor> + 1 \<le> \<lfloor>y\<rfloor>" by simp
    with rhe_bounds(2) [of x] rhe_bounds(1) [of y] show ?thesis by linarith
  qed
qed

lemma rhe_error: "\<bar>real_of_int (rhe y) - y\<bar> \<le> 1 / 2"
proof -
  have "real_of_int \<lfloor>y\<rfloor> \<le> y" "y < real_of_int \<lfloor>y\<rfloor> + 1" by linarith+
  then show ?thesis by (auto simp: rhe_def Let_def)
qed

lemma rhe_minus: "rhe (- y) = - rhe y"
proof (cases "y = real_of_int \<lfloor>y\<rfloor>")
  case True
  then obtain m where "y = real_of_int m" ..
  then show ?thesis by (simp flip: of_int_minus)
next
  case False
  have lt: "real_of_int \<lfloor>y\<rfloor> < y" "y < real_of_int \<lfloor>y\<rfloor> + 1" using False by linarith+
  have c: "\<lfloor>- y\<rfloor> = - \<lfloor>y\<rfloor> - 1"
  proof (rule floor_unique)
    show "real_of_int (- \<lfloor>y\<rfloor> - 1) \<le> - y" by (simp, linarith)
    show "- y < real_of_int (- \<lfloor>y\<rfloor> - 1) + 1" using lt(1) by simp
  qed
  note lt
  then show ?thesis
    by (auto simp: rhe_def Let_def c)
qed

lemma two_powi_pos [simp]: "0 < (2::real) powi n"
  by (simp add: zero_less_power_int)

lemma floor_log2_bounds:
  assumes "x \<noteq> 0"
  shows "2 powi \<lfloor>log 2 \<bar>x\<bar>\<rfloor> \<le> \<bar>x\<bar>" "\<bar>x\<bar> < 2 powi (\<lfloor>log 2 \<bar>x\<bar>\<rfloor> + 1)"
proof -
  have pos: "0 < \<bar>x\<bar>" using assms by simp
  have "\<lfloor>log 2 \<bar>x\<bar>\<rfloor> = \<lfloor>log 2 \<bar>x\<bar>\<rfloor>" ..
  then have "2 powr real_of_int \<lfloor>log 2 \<bar>x\<bar>\<rfloor> \<le> \<bar>x\<bar> \<and> \<bar>x\<bar> < 2 powr (real_of_int \<lfloor>log 2 \<bar>x\<bar>\<rfloor> + 1)"
    using floor_log_eq_powr_iff [OF pos, of 2 "\<lfloor>log 2 \<bar>x\<bar>\<rfloor>"] by simp
  moreover have "real_of_int \<lfloor>log 2 \<bar>x\<bar>\<rfloor> + 1 = real_of_int (\<lfloor>log 2 \<bar>x\<bar>\<rfloor> + 1)" by simp
  ultimately show "2 powi \<lfloor>log 2 \<bar>x\<bar>\<rfloor> \<le> \<bar>x\<bar>" "\<bar>x\<bar> < 2 powi (\<lfloor>log 2 \<bar>x\<bar>\<rfloor> + 1)"
    by (simp_all only: powr_real_of_int' [of 2, simplified])
qed

lemma floor_log2_unique:
  assumes "2 powi n \<le> \<bar>x\<bar>" "\<bar>x\<bar> < 2 powi (n + 1)"
  shows "\<lfloor>log 2 \<bar>x\<bar>\<rfloor> = n"
proof -
  have pos: "0 < \<bar>x\<bar>" using assms(1) two_powi_pos [of n] by linarith
  have "2 powr real_of_int n \<le> \<bar>x\<bar>" "\<bar>x\<bar> < 2 powr (real_of_int n + 1)"
    using assms powr_real_of_int' [of 2 n] powr_real_of_int' [of 2 "n + 1"] by simp_all
  then show ?thesis using floor_log_eq_powr_iff [OF pos, of 2 n] by simp
qed

lemma ulp_exp_unique:
  assumes "2 powi n \<le> \<bar>x\<bar>" "\<bar>x\<bar> < 2 powi (n + 1)"
  shows "ulp_exp x = max (n - 52) (- 1074)"
  by (simp add: ulp_exp_def floor_log2_unique [OF assms])

lemma ulp_exp_minus [simp]: "ulp_exp (- x) = ulp_exp x"
  by (simp add: ulp_exp_def)

lemma ulp_exp_ge: "- 1074 \<le> ulp_exp x"
  by (simp add: ulp_exp_def)

lemma rnd_zero [simp]: "rnd 0 = 0"
  by (simp add: rnd_def)

lemma rnd_minus: "rnd (- x) = - rnd x"
  by (simp add: rnd_def rhe_minus)

lemma rnd_nonneg: "0 \<le> x \<Longrightarrow> 0 \<le> rnd x"
proof -
  assume "0 \<le> x"
  then have "real_of_int 0 \<le> x / 2 powi ulp_exp x" by simp
  then have "0 \<le> rhe (x / 2 powi ulp_exp x)" by (rule rhe_ge_int)
  then show ?thesis by (simp add: rnd_def)
qed

text \<open>The significand of \<open>x\<close> at the scale of its unit in the last place.\<close>

lemma scaled_less:
  assumes "x \<noteq> 0"
  shows "\<bar>x\<bar> / 2 powi ulp_exp x < 2 ^ 53"
proof -
  let ?n = "\<lfloor>log 2 \<bar>x\<bar>\<rfloor>"
  have "\<bar>x\<bar> < 2 powi (?n + 1)" using assms by (rule floor_log2_bounds)
  also have "(2::real) powi (?n + 1) \<le> 2 powi (ulp_exp x + 53)"
    by (rule power_int_increasing) (simp_all add: ulp_exp_def)
  also have "\<dots> = 2 powi ulp_exp x * 2 ^ 53"
    by (simp add: power_int_add)
  finally show ?thesis by (simp add: field_simps)
qed

lemma scaled_ge:
  assumes "x \<noteq> 0" "- 1074 < ulp_exp x"
  shows "2 ^ 52 \<le> \<bar>x\<bar> / 2 powi ulp_exp x"
proof -
  let ?n = "\<lfloor>log 2 \<bar>x\<bar>\<rfloor>"
  from assms(2) have q: "ulp_exp x = ?n - 52" by (simp add: ulp_exp_def max_def split: if_splits)
  have "(2::real) powi ulp_exp x * 2 ^ 52 = 2 powi (ulp_exp x + 52)"
    by (simp add: power_int_add)
  also have "\<dots> = 2 powi ?n" by (simp add: q)
  also have "\<dots> \<le> \<bar>x\<bar>" using assms(1) by (rule floor_log2_bounds)
  finally show ?thesis by (simp add: field_simps)
qed

lemma ulp_exp_mono:
  assumes "0 < x" "x \<le> y"
  shows "ulp_exp x \<le> ulp_exp y"
proof -
  have "log 2 x \<le> log 2 y" using assms by simp
  then have "\<lfloor>log 2 x\<rfloor> \<le> \<lfloor>log 2 y\<rfloor>" by (rule floor_mono)
  then show ?thesis using assms by (simp add: ulp_exp_def)
qed

lemma rnd_mono_pos:
  assumes "0 < x" "x \<le> y"
  shows "rnd x \<le> rnd y"
proof -
  have y: "0 < y" using assms by linarith
  have q: "ulp_exp x \<le> ulp_exp y" using assms by (rule ulp_exp_mono)
  show ?thesis
  proof (cases "ulp_exp x = ulp_exp y")
    case True
    have "x / 2 powi ulp_exp y \<le> y / 2 powi ulp_exp y"
      using assms(2) by (simp add: divide_right_mono)
    then have "rhe (x / 2 powi ulp_exp y) \<le> rhe (y / 2 powi ulp_exp y)" by (rule rhe_mono)
    then show ?thesis using assms y by (simp add: rnd_def True)
  next
    case False
    with q have lt: "ulp_exp x + 1 \<le> ulp_exp y" by simp
    then have "- 1074 < ulp_exp y" using ulp_exp_ge [of x] by linarith
    from scaled_ge [OF _ this] y have "real_of_int (2 ^ 52) \<le> y / 2 powi ulp_exp y" by simp
    then have "2 ^ 52 \<le> rhe (y / 2 powi ulp_exp y)" by (rule rhe_ge_int)
    then have "(2::real) ^ 52 \<le> real_of_int (rhe (y / 2 powi ulp_exp y))"
      by (metis of_int_le_iff of_int_numeral of_int_power)
    then have lo: "2 ^ 52 * 2 powi ulp_exp y \<le> rnd y"
      using y by (simp add: rnd_def)
    have "x / 2 powi ulp_exp x \<le> real_of_int (2 ^ 53)"
      using scaled_less [of x] assms(1) by simp
    then have "rhe (x / 2 powi ulp_exp x) \<le> 2 ^ 53" by (rule rhe_le_int)
    then have "real_of_int (rhe (x / 2 powi ulp_exp x)) \<le> 2 ^ 53"
      by (metis of_int_le_iff of_int_numeral of_int_power)
    then have "rnd x \<le> 2 ^ 53 * 2 powi ulp_exp x"
      using assms(1) by (simp add: rnd_def)
    also have "(2::real) ^ 53 * 2 powi ulp_exp x = 2 ^ 52 * 2 powi (ulp_exp x + 1)"
      by (simp add: power_int_add)
    also have "\<dots> \<le> 2 ^ 52 * 2 powi ulp_exp y"
      using lt by (intro mult_left_mono power_int_increasing) simp_all
    also note lo
    finally show ?thesis .
  qed
qed

lemma rnd_mono: "x \<le> y \<Longrightarrow> rnd x \<le> rnd y"
proof -
  assume xy: "x \<le> y"
  consider "0 < x" | "x \<le> 0" "0 \<le> y" | "y < 0" by linarith
  then show ?thesis
  proof cases
    case 1 then show ?thesis using xy by (rule rnd_mono_pos)
  next
    case 2
    then have "0 \<le> rnd y" "0 \<le> rnd (- x)" by (simp_all add: rnd_nonneg)
    then show ?thesis by (simp add: rnd_minus)
  next
    case 3
    then have "0 < - y" "- y \<le> - x" using xy by simp_all
    then have "rnd (- y) \<le> rnd (- x)" by (rule rnd_mono_pos)
    then show ?thesis by (simp add: rnd_minus)
  qed
qed

lemma rnd_scaled_int:
  assumes "x \<noteq> 0" "x / 2 powi ulp_exp x = real_of_int m"
  shows "rnd x = x"
proof -
  have "rnd x = real_of_int m * 2 powi ulp_exp x"
    using assms by (simp add: rnd_def)
  also have "\<dots> = x" using assms(2) by (simp add: field_simps)
  finally show ?thesis .
qed

text \<open>A number \<open>m * 2^j\<close> with \<open>|m| < 2^53\<close> and \<open>j \<ge> -1074\<close> is a double: rounding keeps it.\<close>

lemma rnd_representable:
  assumes "\<bar>m\<bar> < 2 ^ 53" "- 1074 \<le> j"
  shows "rnd (real_of_int m * 2 powi j) = real_of_int m * 2 powi j"
proof (cases "m = 0")
  case True then show ?thesis by simp
next
  case False
  define x where "x = real_of_int m * 2 powi j"
  define q where "q = ulp_exp x"
  have x0: "x \<noteq> 0" using False by (simp add: x_def)
  have absx: "\<bar>x\<bar> = real_of_int \<bar>m\<bar> * 2 powi j" by (simp add: x_def abs_mult)
  have "real_of_int \<bar>m\<bar> < real_of_int (2 ^ 53)" using assms(1) by (simp only: of_int_less_iff)
  then have "\<bar>x\<bar> < 2 ^ 53 * 2 powi j" by (simp add: absx)
  also have "\<dots> = 2 powi (j + 53)" by (simp add: power_int_add)
  finally have up: "\<bar>x\<bar> < 2 powi (j + 53)" .
  have "2 powi \<lfloor>log 2 \<bar>x\<bar>\<rfloor> \<le> \<bar>x\<bar>" using x0 by (rule floor_log2_bounds)
  with up have "(2::real) powi \<lfloor>log 2 \<bar>x\<bar>\<rfloor> < 2 powi (j + 53)" by linarith
  then have "\<lfloor>log 2 \<bar>x\<bar>\<rfloor> < j + 53"
    by (metis linorder_not_le one_le_numeral power_int_increasing)
  then have qj: "q \<le> j" using assms(2) by (simp add: q_def ulp_exp_def)
  define d where "d = nat (j - q)"
  have j: "j = q + int d" using qj by (simp add: d_def)
  have "(2::real) powi j = 2 powi q * 2 ^ d"
    by (subst j) (simp add: power_int_add)
  then have "x / 2 powi q = real_of_int (m * 2 ^ d)"
    by (simp add: x_def)
  then have "x / 2 powi ulp_exp x = real_of_int (m * 2 ^ d)" by (simp only: q_def)
  with x0 have "rnd x = x" by (rule rnd_scaled_int)
  then show ?thesis by (simp only: x_def)
qed

lemma rnd_of_int: "\<bar>m\<bar> < 2 ^ 53 \<Longrightarrow> rnd (real_of_int m) = real_of_int m"
  using rnd_representable [of m 0] by simp

lemma rnd_numeral [simp]: "numeral w < (2 ^ 53 :: int) \<Longrightarrow> rnd (numeral w) = numeral w"
  using rnd_of_int [of "numeral w"] by simp

lemma rnd_one [simp]: "rnd 1 = 1"
  using rnd_of_int [of 1] by simp

lemma rnd_dyadic:
  assumes "\<bar>m\<bar> < 2 ^ 53" "k \<le> 1074"
  shows "rnd (real_of_int m / 2 ^ k) = real_of_int m / 2 ^ k"
proof -
  have "(2::real) powi (- int k) = 1 / 2 ^ k" by (simp add: power_int_minus_divide)
  then show ?thesis using rnd_representable [of m "- int k"] assms by simp
qed

text \<open>Rounding of a number whose exponent is known.\<close>

lemma rnd_eval:
  assumes "2 ^ 52 \<le> \<bar>x\<bar> * 2 ^ k" "\<bar>x\<bar> * 2 ^ k < 2 ^ 53" "k \<le> 1074"
  shows "rnd x = real_of_int (rhe (x * 2 ^ k)) / 2 ^ k"
proof -
  have x0: "x \<noteq> 0" using assms(1) by auto
  have p: "(2::real) powi (52 - int k) = 2 ^ 52 / 2 ^ k" "(2::real) powi (53 - int k) = 2 ^ 53 / 2 ^ k"
    by (simp_all add: power_int_diff)
  have "52 - int k + 1 = 53 - int k" by simp
  then have "2 powi (52 - int k) \<le> \<bar>x\<bar>" "\<bar>x\<bar> < 2 powi (52 - int k + 1)"
    using assms(1,2) by (simp_all add: p field_simps)
  from ulp_exp_unique [OF this] assms(3) have q: "ulp_exp x = - int k" by simp
  have "(2::real) powi (- int k) = 1 / 2 ^ k" by (simp add: power_int_minus_divide)
  then show ?thesis using x0 by (simp add: rnd_def q)
qed

text \<open>The rounding error: half a unit in the last place.\<close>

lemma rnd_error_abs: "\<bar>rnd x - x\<bar> \<le> 2 powi ulp_exp x / 2"
proof (cases "x = 0")
  case True then show ?thesis by simp
next
  case False
  let ?q = "ulp_exp x"
  have "rnd x - x = (real_of_int (rhe (x / 2 powi ?q)) - x / 2 powi ?q) * 2 powi ?q"
    using False by (simp add: rnd_def field_simps)
  then have "\<bar>rnd x - x\<bar> = \<bar>real_of_int (rhe (x / 2 powi ?q)) - x / 2 powi ?q\<bar> * 2 powi ?q"
    by (simp add: abs_mult)
  also have "\<dots> \<le> 1 / 2 * 2 powi ?q"
    by (intro mult_right_mono rhe_error) simp
  finally show ?thesis by simp
qed

lemma rnd_error:
  "\<bar>rnd x - x\<bar> \<le> \<bar>x\<bar> * 2 powi (- 53) + 2 powi (- 1075)"
proof (cases "x = 0")
  case True then show ?thesis by simp
next
  case False
  define q where "q = ulp_exp x"
  have e: "\<bar>rnd x - x\<bar> \<le> 2 powi q / 2" unfolding q_def by (rule rnd_error_abs)
  have "(2::real) powi (q - 1) * 2 = 2 powi q" by (rule power_int_minus_mult) simp
  then have half: "(2::real) powi q / 2 = 2 powi (q - 1)" by linarith
  show ?thesis
  proof (cases "- 1074 < q")
    case True
    from scaled_ge [OF False] True have "2 ^ 52 \<le> \<bar>x\<bar> / 2 powi q" by (simp add: q_def)
    then have "2 powi 52 * 2 powi q \<le> \<bar>x\<bar>" by (simp add: field_simps)
    then have "2 powi 52 * 2 powi q * 2 powi (- 53) \<le> \<bar>x\<bar> * 2 powi (- 53)"
      by (rule mult_right_mono) simp
    moreover have "(2::real) powi 52 * 2 powi q * 2 powi (- 53) = 2 powi (q - 1)"
    proof -
      have "(2::real) powi (52 + q + - 53) = 2 powi (52 + q) * 2 powi (- 53)"
        by (rule power_int_add) simp
      also have "(2::real) powi (52 + q) = 2 powi 52 * 2 powi q"
        by (rule power_int_add) simp
      finally show ?thesis by (simp only: add.commute [of 52 q] add.assoc) simp
    qed
    moreover have "0 \<le> (2::real) powi (- 1075)" by simp
    ultimately show ?thesis using e half by linarith
  next
    case False
    with ulp_exp_ge [of x] have "q = - 1074" by (simp add: q_def)
    then have "(2::real) powi (q - 1) = 2 powi (- 1075)" by simp
    moreover have "0 \<le> \<bar>x\<bar> * 2 powi (- 53)" by simp
    ultimately show ?thesis using e half by linarith
  qed
qed




text \<open>Rounding keeps a bound that is a power of two.\<close>

lemma rnd_abs_le_powi:
  assumes "\<bar>x\<bar> \<le> 2 powi k" "- 1074 \<le> k"
  shows "\<bar>rnd x\<bar> \<le> 2 powi k"
proof -
  have r: "rnd (2 powi k) = 2 powi k" using rnd_representable [of 1 k] assms(2) by simp
  have "x \<le> 2 powi k" "- (2 powi k) \<le> x" using assms(1) by linarith+
  then have "rnd x \<le> rnd (2 powi k)" "rnd (- (2 powi k)) \<le> rnd x"
    by (simp_all only: rnd_mono)
  then show ?thesis by (simp add: r rnd_minus abs_le_iff)
qed

lemma powi_double: "(2::real) powi k + 2 powi k = 2 powi (k + 1)"
  using power_int_add [of "2::real" k 1] by simp

text \<open>
  No operation of a coordinate overflows while the span is at most \<open>2^892\<close> and the
  centre at most \<open>2^890\<close>: every intermediate result is at most \<open>2^925\<close> in magnitude,
  where binary64 reaches up to \<open>2^1024\<close>.
\<close>

lemma axis_finite:
  fixes A w x c :: real
  assumes A: "0 \<le> A" "A \<le> 2 powi 892" and w: "1 \<le> w" and x: "0 \<le> x" "x \<le> 2 ^ 31"
    and c: "\<bar>c\<bar> \<le> 2 powi 890"
  shows "\<bar>rnd A\<bar> \<le> 2 powi 892"
    and "\<bar>rnd (rnd A / w)\<bar> \<le> 2 powi 892"
    and "\<bar>rnd (rnd (rnd A / w) * x)\<bar> \<le> 2 powi 923"
    and "\<bar>rnd (rnd A / 2)\<bar> \<le> 2 powi 892"
    and "\<bar>rnd (rnd (rnd (rnd A / w) * x) - rnd (rnd A / 2))\<bar> \<le> 2 powi 924"
    and "\<bar>rnd (rnd (rnd (rnd (rnd A / w) * x) - rnd (rnd A / 2)) + c)\<bar> \<le> 2 powi 925"
proof -
  define a where "a = rnd A"
  define b where "b = rnd (a / w)"
  define m where "m = rnd (b * x)"
  define d where "d = rnd (a / 2)"
  define s where "s = rnd (m - d)"
  have a: "\<bar>a\<bar> \<le> 2 powi 892" unfolding a_def using A by (intro rnd_abs_le_powi) simp_all
  have "\<bar>a / w\<bar> = \<bar>a\<bar> / w" using w by simp
  also have "\<dots> \<le> \<bar>a\<bar> / 1" using w by (intro divide_left_mono) simp_all
  finally have "\<bar>a / w\<bar> \<le> 2 powi 892" using a by simp
  then have b: "\<bar>b\<bar> \<le> 2 powi 892" unfolding b_def by (intro rnd_abs_le_powi) simp_all
  have "\<bar>b * x\<bar> = \<bar>b\<bar> * x" using x(1) by (simp add: abs_mult)
  also have "\<dots> \<le> 2 powi 892 * 2 ^ 31" using b x by (intro mult_mono) simp_all
  also have "\<dots> = 2 powi (892 + 31)" by (subst power_int_add) simp_all
  finally have "\<bar>b * x\<bar> \<le> 2 powi 923" by simp
  then have m: "\<bar>m\<bar> \<le> 2 powi 923" unfolding m_def by (intro rnd_abs_le_powi) simp_all
  have "\<bar>a / 2\<bar> \<le> \<bar>a\<bar>" by simp
  with a have "\<bar>a / 2\<bar> \<le> 2 powi 892" by linarith
  then have d: "\<bar>d\<bar> \<le> 2 powi 892" unfolding d_def by (intro rnd_abs_le_powi) simp_all
  have p1: "(2::real) powi 892 \<le> 2 powi 923" "(2::real) powi 890 \<le> 2 powi 924"
    by (intro power_int_increasing, simp_all)+
  have "\<bar>m - d\<bar> \<le> 2 powi 923 + 2 powi 923" using m d p1(1) by linarith
  then have "\<bar>m - d\<bar> \<le> 2 powi 924" using powi_double [of 923] by simp
  then have s: "\<bar>s\<bar> \<le> 2 powi 924" unfolding s_def by (intro rnd_abs_le_powi) simp_all
  have "\<bar>s + c\<bar> \<le> 2 powi 924 + 2 powi 924" using s c p1(2) by linarith
  then have "\<bar>s + c\<bar> \<le> 2 powi 925" using powi_double [of 924] by simp
  then have r: "\<bar>rnd (s + c)\<bar> \<le> 2 powi 925" by (intro rnd_abs_le_powi) simp_all
  from a show "\<bar>rnd A\<bar> \<le> 2 powi 892" by (simp only: a_def)
  from b show "\<bar>rnd (rnd A / w)\<bar> \<le> 2 powi 892" by (simp only: a_def b_def)
  from m show "\<bar>rnd (rnd (rnd A / w) * x)\<bar> \<le> 2 powi 923" by (simp only: a_def b_def m_def)
  from d show "\<bar>rnd (rnd A / 2)\<bar> \<le> 2 powi 892" by (simp only: a_def d_def)
  from s show "\<bar>rnd (rnd (rnd (rnd A / w) * x) - rnd (rnd A / 2))\<bar> \<le> 2 powi 924"
    by (simp only: a_def b_def m_def d_def s_def)
  from r show "\<bar>rnd (rnd (rnd (rnd (rnd A / w) * x) - rnd (rnd A / 2)) + c)\<bar> \<le> 2 powi 925"
    by (simp only: a_def b_def m_def d_def s_def)
qed

subsection \<open>Arithmetic\<close>

lemma reference_simps:
  "max_iter reference = 2048"
  "img_width reference = 1920"
  "img_height reference = 1080"
  "center reference = \<lparr> real_part = rnd (- 0.77568377), imag_part = rnd 0.13646737 \<rparr>"
  "zoom_start reference = 1"
  "zoom_end reference = rnd (10 ^ 227)"
  "zoom_fact reference = rnd 1.1"
  unfolding reference_def by (simp_all only: params.select_convs)

text \<open>
  Overflow of \<open>int\<close> is not modelled. At the values of the source the largest offset into
  the buffer and the step cap are far below \<open>2\<^sup>3\<^sup>1\<close>.
\<close>

lemma reference_ints_in_range:
  "img_width reference * img_height reference * 3 < 2 ^ 31"
  "max_iter reference < 2 ^ 31"
  by (simp_all add: reference_simps)

lemma fdiv_Some: "b \<noteq> 0 \<Longrightarrow> fdiv a b = Some (rnd (a / b))"
  by (simp add: fdiv_def)

lemma trunc_nonneg: "0 \<le> x \<Longrightarrow> trunc x = \<lfloor>x\<rfloor>"
  by (simp add: trunc_def)

lemma trunc_range:
  assumes "0 \<le> x" "x \<le> real_of_int N"
  shows "0 \<le> trunc x \<and> trunc x \<le> N"
  using assms by (simp add: trunc_def floor_le_iff le_floor_iff)

lemma double_to_int_range:
  assumes "0 \<le> x" "x \<le> real_of_int N" "N < 2147483648"
  shows "\<exists>n. double_to_int x = Some n \<and> n = trunc x \<and> 0 \<le> n \<and> n \<le> N"
proof -
  have "x < 2147483648" using assms by linarith
  then show ?thesis using assms trunc_range [of x N] by (simp add: double_to_int_def)
qed

lemma fmod_two:
  assumes "0 \<le> x"
  shows "\<exists>f. fmod x 2 = Some f \<and> 0 \<le> f \<and> f < 2"
proof -
  have "0 \<le> x / 2" using assms by simp
  then have t: "trunc (x / 2) = \<lfloor>x / 2\<rfloor>" by (rule trunc_nonneg)
  have "real_of_int \<lfloor>x / 2\<rfloor> \<le> x / 2" "x / 2 < real_of_int \<lfloor>x / 2\<rfloor> + 1"
    by linarith+
  then have "0 \<le> x - real_of_int \<lfloor>x / 2\<rfloor> * 2" "x - real_of_int \<lfloor>x / 2\<rfloor> * 2 < 2"
    by linarith+
  then show ?thesis by (simp add: fmod_def t)
qed

lemma smod_nonneg: "0 \<le> a \<Longrightarrow> 0 < b \<Longrightarrow> a smod b = a mod (b::int)"
  by (cases "a = 0") (simp_all add: signed_modulo_int_def)

lemma sdiv_nonneg: "0 \<le> a \<Longrightarrow> 0 < b \<Longrightarrow> a sdiv b = a div (b::int)"
  by (cases "a = 0") (simp_all add: signed_divide_int_def)

lemma imod_nonneg: "0 \<le> a \<Longrightarrow> 0 < b \<Longrightarrow> imod a b = Some (a mod b)"
  by (simp add: imod_def smod_nonneg)

lemma idiv_nonneg: "0 \<le> a \<Longrightarrow> 0 < b \<Longrightarrow> idiv a b = Some (a div b)"
  by (simp add: idiv_def sdiv_nonneg)

subsection \<open>The iteration loop\<close>

lemma iterate_loop_returns:
  "\<exists>n. iterate_loop p c z i = Some n \<and> i \<le> n \<and> n \<le> max i (max_iter p)"
proof (induction "nat (max_iter p - i)" arbitrary: z i)
  case 0
  then have "\<not> i < max_iter p" by simp
  then show ?case by (subst iterate_loop.simps) simp
next
  case (Suc k)
  then have lt: "i < max_iter p" by linarith
  show ?case
  proof (cases "sqrt (real_part z * real_part z + imag_part z * imag_part z) < 2")
    case False
    then show ?thesis by (subst iterate_loop.simps) simp
  next
    case True
    let ?z = "\<lparr> real_part = real_part z * real_part z - imag_part z * imag_part z + real_part c,
                imag_part = real_part z * imag_part z * 2 + imag_part c \<rparr>"
    from Suc.hyps(2) have "k = nat (max_iter p - (i + 1))" by linarith
    from Suc.hyps(1) [OF this, of ?z] obtain n
      where n: "iterate_loop p c ?z (i + 1) = Some n" "i + 1 \<le> n" "n \<le> max (i + 1) (max_iter p)"
      by blast
    have "iterate_loop p c z i = iterate_loop p c ?z (i + 1)"
      using lt True by (subst iterate_loop.simps) (simp add: Let_def)
    with n lt show ?thesis by auto
  qed
qed

lemma sqrt_less_two: "sqrt x < 2 \<longleftrightarrow> x < 4"
proof -
  have "sqrt x < sqrt 4 \<longleftrightarrow> x < 4" by (rule real_sqrt_less_iff)
  then show ?thesis by simp
qed

lemma iterate_returns:
  "\<exists>n. iterate p c = Some n \<and> 0 \<le> n \<and> n \<le> max 0 (max_iter p)"
  using iterate_loop_returns [of p c c 0] by (simp add: iterate_def)

lemma iterate_loop_stops:
  "\<not> sqrt (real_part z * real_part z + imag_part z * imag_part z) < 2 \<Longrightarrow>
   iterate_loop p c z i = Some i"
  by (subst iterate_loop.simps) simp

lemma iterate_loop_origin:
  "i \<le> max_iter p \<Longrightarrow>
   iterate_loop p \<lparr>real_part = 0, imag_part = 0\<rparr> \<lparr>real_part = 0, imag_part = 0\<rparr> i
     = Some (max_iter p)"
proof (induction "nat (max_iter p - i)" arbitrary: i)
  case 0
  then show ?case by (subst iterate_loop.simps) simp
next
  case (Suc k)
  then have lt: "i < max_iter p" by linarith
  from Suc.hyps(2) have "k = nat (max_iter p - (i + 1))" by linarith
  from Suc.hyps(1) [OF this] lt
  have "iterate_loop p \<lparr>real_part = 0, imag_part = 0\<rparr> \<lparr>real_part = 0, imag_part = 0\<rparr> (i + 1)
          = Some (max_iter p)"
    by simp
  then show ?case using lt by (subst iterate_loop.simps) simp
qed

text \<open>
  C1. For every complex input and every positive \<open>max_iter\<close>, \<open>iterate\<close> returns a count
  between 0 and \<open>max_iter\<close>, both included.
\<close>

theorem iterate_count_in_range:
  assumes "0 < max_iter p"
  shows "\<exists>n. iterate p c = Some n \<and> 0 \<le> n \<and> n \<le> max_iter p"
  using assms iterate_returns [of p c] by auto

theorem iterate_count_in_range_witness:
  "0 < max_iter reference \<and>
   (\<exists>n. iterate reference \<lparr>real_part = 1, imag_part = 0\<rparr> = Some n \<and>
        0 \<le> n \<and> n \<le> max_iter reference)"
  using iterate_count_in_range [of reference "\<lparr>real_part = 1, imag_part = 0\<rparr>"]
  by (simp add: reference_simps)

text \<open>
  C2. A point of magnitude exactly 2 counts as diverged: the loop stops at any pass where
  the magnitude of \<open>z\<close> is 2. So the input (2, 0) gives 0 without entering the loop body,
  and the input (1, 0) gives exactly 1: the first pass runs and leaves \<open>z = (2, 0)\<close>, the
  second test fails.
\<close>

theorem iterate_magnitude_two_diverged:
  assumes "0 < max_iter p"
  shows "(sqrt (real_part z * real_part z + imag_part z * imag_part z) = 2 \<longrightarrow>
            iterate_loop p c z i = Some i) \<and>
         iterate p \<lparr>real_part = 2, imag_part = 0\<rparr> = Some 0 \<and>
         iterate p \<lparr>real_part = 1, imag_part = 0\<rparr> = Some 1"
proof (intro conjI impI)
  assume "sqrt (real_part z * real_part z + imag_part z * imag_part z) = 2"
  then show "iterate_loop p c z i = Some i" by (simp add: iterate_loop_stops)
next
  show "iterate p \<lparr>real_part = 2, imag_part = 0\<rparr> = Some 0"
    by (simp add: iterate_def iterate_loop_stops sqrt_less_two)
next
  let ?c = "\<lparr>real_part = 1, imag_part = 0\<rparr>"
  have "iterate_loop p ?c ?c 0 = iterate_loop p ?c \<lparr>real_part = 2, imag_part = 0\<rparr> 1"
    using assms by (subst iterate_loop.simps) (simp add: sqrt_less_two)
  also have "\<dots> = Some 1"
    by (simp add: iterate_loop_stops sqrt_less_two)
  finally show "iterate p ?c = Some 1" by (simp add: iterate_def)
qed

theorem iterate_magnitude_two_diverged_witness:
  "0 < max_iter reference \<and>
   sqrt (real_part \<lparr>real_part = 0, imag_part = 2\<rparr> * real_part \<lparr>real_part = 0, imag_part = 2\<rparr> +
         imag_part \<lparr>real_part = 0, imag_part = 2\<rparr> * imag_part \<lparr>real_part = 0, imag_part = 2\<rparr>) = 2 \<and>
   iterate_loop reference \<lparr>real_part = 0, imag_part = 2\<rparr> \<lparr>real_part = 0, imag_part = 2\<rparr> 0 = Some 0 \<and>
   iterate reference \<lparr>real_part = 2, imag_part = 0\<rparr> = Some 0 \<and>
   iterate reference \<lparr>real_part = 1, imag_part = 0\<rparr> = Some 1"
  using iterate_magnitude_two_diverged
          [of reference "\<lparr>real_part = 0, imag_part = 2\<rparr>" "\<lparr>real_part = 0, imag_part = 2\<rparr>" 0]
  by (simp add: reference_simps)

text \<open>
  C3. At the input (0, 0) the loop never sees a divergence: \<open>z\<close> stays (0, 0), the loop
  runs to the step cap and the result is \<open>max_iter\<close>.
\<close>

theorem iterate_origin_max_iter:
  assumes "0 < max_iter p"
  shows "iterate p \<lparr>real_part = 0, imag_part = 0\<rparr> = Some (max_iter p)"
  using assms by (simp add: iterate_def iterate_loop_origin)

theorem iterate_origin_max_iter_witness:
  "0 < max_iter reference \<and>
   iterate reference \<lparr>real_part = 0, imag_part = 0\<rparr> = Some 2048"
  using iterate_origin_max_iter [of reference] by (simp add: reference_simps)

subsection \<open>The pixel map\<close>

lemma map_pixel_eq:
  assumes "zoom \<noteq> 0" "img_width p \<noteq> 0" "img_height p \<noteq> 0"
  shows "map_pixel p px py zoom cen =
     Some \<lparr> real_part =
              rnd (rnd (rnd (rnd (rnd (4 / zoom) / real_of_int (img_width p)) * real_of_int px)
                        - rnd (rnd (4 / zoom) / 2))
                   + real_part cen),
            imag_part =
              rnd (rnd (rnd (rnd (rnd (2 / zoom) / real_of_int (img_height p)) * real_of_int py)
                        - rnd (rnd (2 / zoom) / 2))
                   + imag_part cen) \<rparr>"
  using assms by (simp add: map_pixel_def fdiv_def fadd_def fsub_def fmul_def)









subsection \<open>The colour conversion\<close>

lemma hsv_sector_cases:
  "hsv_sector h c x = (R, G, B) \<Longrightarrow> R \<in> {0, x, c} \<and> G \<in> {0, x, c} \<and> B \<in> {0, x, c}"
  by (auto simp: hsv_sector_def split: if_splits)

lemma hsv_to_rgb_unfold:
  assumes "fmod (real_of_int h / 60) 2 = Some f"
    and "hsv_sector h (real_of_int s / 100 * (real_of_int v / 100))
           (real_of_int s / 100 * (real_of_int v / 100) * (1 - \<bar>f - 1\<bar>)) = (R, G, B)"
  shows "hsv_to_rgb h s v = do {
     r \<leftarrow> double_to_int ((R + (real_of_int v / 100 - real_of_int s / 100 * (real_of_int v / 100))) * 255);
     g \<leftarrow> double_to_int ((G + (real_of_int v / 100 - real_of_int s / 100 * (real_of_int v / 100))) * 255);
     b \<leftarrow> double_to_int ((B + (real_of_int v / 100 - real_of_int s / 100 * (real_of_int v / 100))) * 255);
     Some (r, g, b) }"
  using assms by (simp add: hsv_to_rgb_def Let_def)

lemma channel_byte:
  assumes "0 \<le> V" "V \<le> 1" "0 \<le> c" "c \<le> V" "0 \<le> ch" "ch \<le> c"
  shows "\<exists>n. double_to_int ((ch + (V - c)) * 255) = Some n \<and> 0 \<le> n \<and> n \<le> 255"
proof -
  have "0 \<le> ch + (V - c)" "ch + (V - c) \<le> 1" using assms by linarith+
  then have "0 \<le> (ch + (V - c)) * 255" "(ch + (V - c)) * 255 \<le> real_of_int 255"
    by simp_all
  from double_to_int_range [OF this] show ?thesis by auto
qed

lemma hsv_to_rgb_bytes:
  assumes h: "0 \<le> h" "h < 360" and s: "0 \<le> s" "s \<le> 100" and v: "0 \<le> v" "v \<le> 100"
  shows "\<exists>r g b. hsv_to_rgb h s v = Some (r, g, b) \<and>
           0 \<le> r \<and> r \<le> 255 \<and> 0 \<le> g \<and> g \<le> 255 \<and> 0 \<le> b \<and> b \<le> 255"
proof -
  define S where "S = real_of_int s / 100"
  define V where "V = real_of_int v / 100"
  have S: "0 \<le> S" "S \<le> 1" using s by (simp_all add: S_def)
  have V: "0 \<le> V" "V \<le> 1" using v by (simp_all add: V_def)
  have c: "0 \<le> S * V" "S * V \<le> V"
    using S V by (simp_all add: mult_left_le_one_le)
  from h have "0 \<le> real_of_int h / 60" by simp
  from fmod_two [OF this] obtain f
    where f: "fmod (real_of_int h / 60) 2 = Some f" "0 \<le> f" "f < 2" by blast
  define x where "x = S * V * (1 - \<bar>f - 1\<bar>)"
  have w: "0 \<le> 1 - \<bar>f - 1\<bar>" "1 - \<bar>f - 1\<bar> \<le> 1" using f by linarith+
  have x: "0 \<le> x" "x \<le> S * V"
    using c w by (simp_all add: x_def mult_left_le)
  obtain R G B where sec: "hsv_sector h (S * V) x = (R, G, B)"
    by (cases "hsv_sector h (S * V) x") auto
  from hsv_sector_cases [OF sec] x c
  have ch: "0 \<le> R" "R \<le> S * V" "0 \<le> G" "G \<le> S * V" "0 \<le> B" "B \<le> S * V"
    by auto
  obtain r where r: "double_to_int ((R + (V - S * V)) * 255) = Some r" "0 \<le> r" "r \<le> 255"
    using channel_byte [OF V c ch(1,2)] by blast
  obtain g where g: "double_to_int ((G + (V - S * V)) * 255) = Some g" "0 \<le> g" "g \<le> 255"
    using channel_byte [OF V c ch(3,4)] by blast
  obtain b where b: "double_to_int ((B + (V - S * V)) * 255) = Some b" "0 \<le> b" "b \<le> 255"
    using channel_byte [OF V c ch(5,6)] by blast
  have "hsv_to_rgb h s v = Some (r, g, b)"
    using hsv_to_rgb_unfold [of h f s v R G B] f(1) sec r(1) g(1) b(1)
    by (simp add: S_def V_def x_def)
  with r g b show ?thesis by blast
qed

text \<open>
  C5. For a hue from 60 up to, not including, 180 the conversion takes the one merged
  branch whose channels before the offset are (X, C, X); the split of the textbook into
  (X, C, 0) and (0, C, X) is not made. So at saturation 100 the red and the blue output
  are equal on all of this range, whatever the value.
\<close>

theorem hsv_merged_sector:
  assumes "60 \<le> h" "h < 180"
  shows "hsv_sector h c x = (x, c, x) \<and>
         (\<forall>r g b. hsv_to_rgb h 100 v = Some (r, g, b) \<longrightarrow>
                    r = b \<and> (word_of_int r :: 8 word) = word_of_int b) \<and>
         (0 \<le> v \<and> v \<le> 100 \<longrightarrow> (\<exists>r g. hsv_to_rgb h 100 v = Some (r, g, r)))"
proof -
  have sec: "\<And>c x. hsv_sector h c x = (x, c, x)"
    using assms by (simp add: hsv_sector_def)
  have eq: "r = b" if "hsv_to_rgb h 100 v = Some (r, g, b)" for r g b
    using that by (auto simp: hsv_to_rgb_def sec Let_def split: Option.bind_splits)
  have "\<exists>r g. hsv_to_rgb h 100 v = Some (r, g, r)" if "0 \<le> v" "v \<le> 100"
  proof -
    have "0 \<le> h" "h < 360" using assms by linarith+
    from hsv_to_rgb_bytes [OF this _ _ that, of 100] obtain r g b
      where "hsv_to_rgb h 100 v = Some (r, g, b)" by auto
    with eq [OF this] show ?thesis by blast
  qed
  with sec eq show ?thesis by blast
qed

theorem hsv_merged_sector_witness:
  "(60::int) \<le> 90 \<and> (90::int) < 180 \<and> (0::int) \<le> 100 \<and> (100::int) \<le> 100 \<and>
   hsv_sector 90 1 (1 / 2) = (1 / 2, 1, 1 / 2) \<and>
   hsv_to_rgb 90 100 100 = Some (127, 255, 127)"
  using hsv_merged_sector [of 90 1 "1 / 2" 100]
  by (simp add: hsv_to_rgb_def fmod_def trunc_def hsv_sector_def double_to_int_def)

lemma brightness_range:
  assumes "0 < max_iter p" "0 \<le> n" "n \<le> max_iter p"
  shows "\<exists>v. brightness p n = Some v \<and>
             v = trunc (fmul (rnd (real_of_int (max_iter p - n) / real_of_int (max_iter p))) 100) \<and>
             0 \<le> v \<and> v \<le> 100"
proof -
  define q where "q = rnd (real_of_int (max_iter p - n) / real_of_int (max_iter p))"
  have "0 \<le> real_of_int (max_iter p - n) / real_of_int (max_iter p)"
    "real_of_int (max_iter p - n) / real_of_int (max_iter p) \<le> 1"
    using assms by simp_all
  then have "rnd 0 \<le> q" "q \<le> rnd 1" unfolding q_def by (simp_all only: rnd_mono)
  then have q: "0 \<le> q" "q \<le> 1" by simp_all
  then have "0 \<le> q * 100" "q * 100 \<le> 100" by simp_all
  then have "rnd 0 \<le> rnd (q * 100)" "rnd (q * 100) \<le> rnd 100" by (simp_all only: rnd_mono)
  then have lo: "0 \<le> fmul q 100" and hi: "fmul q 100 \<le> real_of_int 100"
    by (simp_all add: fmul_def)
  have "brightness p n = double_to_int (fmul q 100)"
    using assms(1) by (simp add: brightness_def fdiv_def q_def)
  with double_to_int_range [OF lo hi] show ?thesis by (simp add: q_def)
qed

lemma pixel_colour_bytes:
  assumes "0 < max_iter p" "0 \<le> n" "n \<le> max_iter p"
  shows "\<exists>r g b. pixel_colour p n = Some (r, g, b) \<and>
           0 \<le> r \<and> r \<le> 255 \<and> 0 \<le> g \<and> g \<le> 255 \<and> 0 \<le> b \<and> b \<le> 255"
proof -
  from brightness_range [OF assms] obtain v
    where v: "brightness p n = Some v" "0 \<le> v" "v \<le> 100" by blast
  have h: "imod n 360 = Some (n mod 360)" using assms(2) by (simp add: imod_nonneg)
  have "0 \<le> n mod 360" "n mod 360 < 360" by simp_all
  from hsv_to_rgb_bytes [OF this _ _ v(2,3), of 100]
  show ?thesis by (simp add: pixel_colour_def h v(1))
qed

text \<open>
  C6. For a count from 0 to \<open>max_iter\<close> (positive), the colour of the pixel (hue
  \<open>count % 360\<close>, saturation 100, value \<open>(max_iter - count) / max_iter * 100\<close>, through
  \<open>hsv_to_rgb\<close>) has r, g and b each from 0 to 255.
\<close>

theorem pixel_colour_in_byte_range:
  assumes "0 < max_iter p" "0 \<le> count" "count \<le> max_iter p"
  shows "\<exists>r g b. pixel_colour p count = Some (r, g, b) \<and>
           0 \<le> r \<and> r \<le> 255 \<and> 0 \<le> g \<and> g \<le> 255 \<and> 0 \<le> b \<and> b \<le> 255"
  using assms by (rule pixel_colour_bytes)

theorem pixel_colour_in_byte_range_witness:
  "0 < max_iter reference \<and> (0::int) \<le> 0 \<and> 0 \<le> max_iter reference \<and>
   pixel_colour reference 0 = Some (255, 0, 0) \<and>
   (\<exists>r g b. pixel_colour reference 0 = Some (r, g, b) \<and>
           0 \<le> r \<and> r \<le> 255 \<and> 0 \<le> g \<and> g \<le> 255 \<and> 0 \<le> b \<and> b \<le> 255)"
  using pixel_colour_in_byte_range [of reference 0]
  by (simp add: reference_simps pixel_colour_def imod_def signed_modulo_int_def brightness_def
      fdiv_def fmul_def double_to_int_def trunc_def hsv_to_rgb_def fmod_def hsv_sector_def)

text \<open>
  The brightness at some counts, in binary64. At a cap of 100 and the count 71 the
  quotient \<open>29 / 100.0\<close> rounds below 0.29 and its product with 100 below 29, so the value
  is 28, where the exact quotient would give 29.
\<close>

lemma brightness_100_71: "brightness (reference\<lparr>max_iter := 100\<rparr>) 71 = Some 28"
proof -
  have "rnd (29 / 100) = real_of_int (rhe (29 / 100 * 2 ^ 54)) / 2 ^ 54"
    by (rule rnd_eval) simp_all
  also have "rhe (29 / 100 * 2 ^ 54) = 5224175567749775"
    by (simp add: rhe_def Let_def)
  finally have q: "rnd (29 / 100) = 5224175567749775 / 2 ^ 54" by simp
  have "rnd (5224175567749775 / 2 ^ 54 * 100)
          = real_of_int (rhe (5224175567749775 / 2 ^ 54 * 100 * 2 ^ 48)) / 2 ^ 48"
    by (rule rnd_eval) simp_all
  also have "rhe (5224175567749775 / 2 ^ 54 * 100 * 2 ^ 48) = 8162774324609023"
    by (simp add: rhe_def Let_def)
  finally have b: "rnd (5224175567749775 / 2 ^ 54 * 100) = 8162774324609023 / 2 ^ 48" by simp
  have "brightness (reference\<lparr>max_iter := 100\<rparr>) 71 = double_to_int (rnd (rnd (29 / 100) * 100))"
    by (simp add: brightness_def fdiv_def fmul_def)
  also have "\<dots> = double_to_int (8162774324609023 / 2 ^ 48)" by (simp only: q b)
  also have "\<dots> = Some 28" by (simp add: double_to_int_def trunc_def)
  finally show ?thesis .
qed

lemma brightness_100000_1: "brightness (reference\<lparr>max_iter := 100000\<rparr>) 1 = Some 99"
proof -
  have "rnd (99999 / 100000) = real_of_int (rhe (99999 / 100000 * 2 ^ 53)) / 2 ^ 53"
    by (rule rnd_eval) simp_all
  also have "rhe (99999 / 100000 * 2 ^ 53) = 9007109182748445"
    by (simp add: rhe_def Let_def)
  finally have q: "rnd (99999 / 100000) = 9007109182748445 / 2 ^ 53" by simp
  have "rnd (9007109182748445 / 2 ^ 53 * 100)
          = real_of_int (rhe (9007109182748445 / 2 ^ 53 * 100 * 2 ^ 46)) / 2 ^ 46"
    by (rule rnd_eval) simp_all
  also have "rhe (9007109182748445 / 2 ^ 53 * 100 * 2 ^ 46) = 7036804049022223"
    by (simp add: rhe_def Let_def)
  finally have b: "rnd (9007109182748445 / 2 ^ 53 * 100) = 7036804049022223 / 2 ^ 46" by simp
  have "brightness (reference\<lparr>max_iter := 100000\<rparr>) 1
          = double_to_int (rnd (rnd (99999 / 100000) * 100))"
    by (simp add: brightness_def fdiv_def fmul_def)
  also have "\<dots> = double_to_int (7036804049022223 / 2 ^ 46)" by (simp only: q b)
  also have "\<dots> = Some 99" by (simp add: double_to_int_def trunc_def)
  finally show ?thesis .
qed

lemma brightness_100000_361: "brightness (reference\<lparr>max_iter := 100000\<rparr>) 361 = Some 99"
proof -
  have "rnd (99639 / 100000) = real_of_int (rhe (99639 / 100000 * 2 ^ 53)) / 2 ^ 53"
    by (rule rnd_eval) simp_all
  also have "rhe (99639 / 100000 * 2 ^ 53) = 8974683265431377"
    by (simp add: rhe_def Let_def)
  finally have q: "rnd (99639 / 100000) = 8974683265431377 / 2 ^ 53" by simp
  have "rnd (8974683265431377 / 2 ^ 53 * 100)
          = real_of_int (rhe (8974683265431377 / 2 ^ 53 * 100 * 2 ^ 46)) / 2 ^ 46"
    by (rule rnd_eval) simp_all
  also have "rhe (8974683265431377 / 2 ^ 53 * 100 * 2 ^ 46) = 7011471301118263"
    by (simp add: rhe_def Let_def)
  finally have b: "rnd (8974683265431377 / 2 ^ 53 * 100) = 7011471301118263 / 2 ^ 46" by simp
  have "brightness (reference\<lparr>max_iter := 100000\<rparr>) 361
          = double_to_int (rnd (rnd (99639 / 100000) * 100))"
    by (simp add: brightness_def fdiv_def fmul_def)
  also have "\<dots> = double_to_int (7011471301118263 / 2 ^ 46)" by (simp only: q b)
  also have "\<dots> = Some 99" by (simp add: double_to_int_def trunc_def)
  finally show ?thesis .
qed

text \<open>
  C10. The brightness \<open>(max_iter - count) / max_iter * 100\<close>, computed in binary64, is
  truncated towards zero to an integer before the conversion, since \<open>hsv_to_rgb\<close> takes an
  \<open>int\<close>: for a count from 0 to \<open>max_iter\<close> the value is one of the integers 0 to 100, the
  colour of the pixel is the conversion of the hue \<open>count % 360\<close> and this value (and there
  is one), and two counts with the same \<open>count % 360\<close> and the same truncated value get
  the same colour.
\<close>

theorem brightness_truncated:
  assumes "0 < max_iter p" "0 \<le> count" "count \<le> max_iter p"
  shows "(\<exists>v. brightness p count = Some v \<and>
              v = trunc (fmul (rnd (real_of_int (max_iter p - count) / real_of_int (max_iter p)))
                              100) \<and>
              v \<in> {0..100} \<and>
              pixel_colour p count = hsv_to_rgb (count mod 360) 100 v \<and>
              (\<exists>rgb. pixel_colour p count = Some rgb)) \<and>
         (imod count 360 = imod count' 360 \<and> brightness p count = brightness p count' \<longrightarrow>
            pixel_colour p count = pixel_colour p count')"
proof
  from brightness_range [OF assms] obtain v
    where v: "brightness p count = Some v"
      "v = trunc (fmul (rnd (real_of_int (max_iter p - count) / real_of_int (max_iter p))) 100)"
      "0 \<le> v" "v \<le> 100"
    by blast
  have "pixel_colour p count = hsv_to_rgb (count mod 360) 100 v"
    using assms(2) by (simp add: pixel_colour_def imod_nonneg v(1))
  moreover from pixel_colour_bytes [OF assms] have "\<exists>rgb. pixel_colour p count = Some rgb"
    by blast
  ultimately
  show "\<exists>v. brightness p count = Some v \<and>
              v = trunc (fmul (rnd (real_of_int (max_iter p - count) / real_of_int (max_iter p)))
                              100) \<and>
              v \<in> {0..100} \<and>
              pixel_colour p count = hsv_to_rgb (count mod 360) 100 v \<and>
              (\<exists>rgb. pixel_colour p count = Some rgb)"
    using v by auto
next
  show "imod count 360 = imod count' 360 \<and> brightness p count = brightness p count' \<longrightarrow>
          pixel_colour p count = pixel_colour p count'"
    by (simp add: pixel_colour_def)
qed

theorem brightness_truncated_witness:
  "0 < max_iter (reference\<lparr>max_iter := 100000\<rparr>) \<and> (0::int) \<le> 1 \<and>
   1 \<le> max_iter (reference\<lparr>max_iter := 100000\<rparr>) \<and>
   brightness (reference\<lparr>max_iter := 100000\<rparr>) 1 = Some 99 \<and>
   brightness (reference\<lparr>max_iter := 100000\<rparr>) 361 = Some 99 \<and>
   imod 1 360 = imod 361 360 \<and>
   pixel_colour (reference\<lparr>max_iter := 100000\<rparr>) 1 = hsv_to_rgb 1 100 99 \<and>
   pixel_colour (reference\<lparr>max_iter := 100000\<rparr>) 1 =
     pixel_colour (reference\<lparr>max_iter := 100000\<rparr>) 361 \<and>
   brightness (reference\<lparr>max_iter := 100\<rparr>) 71 = Some 28"
proof -
  let ?p = "reference\<lparr>max_iter := 100000\<rparr>"
  have h: "0 < max_iter ?p" "(0::int) \<le> 1" "1 \<le> max_iter ?p" by simp_all
  have m: "imod 1 360 = imod 361 360"
    by (simp add: imod_def signed_modulo_int_def)
  have b: "brightness ?p 1 = brightness ?p 361"
    by (simp only: brightness_100000_1 brightness_100000_361)
  from brightness_truncated [OF h, of 361] m b
  have col: "pixel_colour ?p 1 = hsv_to_rgb 1 100 99" "pixel_colour ?p 1 = pixel_colour ?p 361"
    by (auto simp: brightness_100000_1)
  from h m col brightness_100000_1 brightness_100000_361 brightness_100_71
  show ?thesis by (intro conjI) assumption+
qed

subsection \<open>Totality of the numeric pipeline\<close>

text \<open>
  C9. The functions of the numeric pipeline return a result on their valid inputs:
  \<open>iterate\<close> returns for every input and every step cap (the counter grows towards the cap
  on every pass); \<open>map_pixel\<close> returns for a positive zoom (and positive image sizes), which
  keeps its divisors from zero; \<open>hsv_to_rgb\<close> returns for a hue from 0 to 359 and
  saturation and value from 0 to 100.
\<close>

theorem numeric_pipeline_total:
  "(\<exists>n. iterate p c = Some n) \<and>
   (0 < zoom \<and> 0 < img_width p \<and> 0 < img_height p \<longrightarrow>
      (\<exists>c'. map_pixel p px py zoom cen = Some c')) \<and>
   (0 \<le> h \<and> h < 360 \<and> 0 \<le> s \<and> s \<le> 100 \<and> 0 \<le> v \<and> v \<le> 100 \<longrightarrow>
      (\<exists>rgb. hsv_to_rgb h s v = Some rgb))"
proof (intro conjI impI)
  show "\<exists>n. iterate p c = Some n" using iterate_returns [of p c] by blast
next
  assume "0 < zoom \<and> 0 < img_width p \<and> 0 < img_height p"
  then have "zoom \<noteq> 0" "img_width p \<noteq> 0" "img_height p \<noteq> 0" by linarith+
  from map_pixel_eq [OF this] show "\<exists>c'. map_pixel p px py zoom cen = Some c'" by simp
next
  assume "0 \<le> h \<and> h < 360 \<and> 0 \<le> s \<and> s \<le> 100 \<and> 0 \<le> v \<and> v \<le> 100"
  then have "0 \<le> h" "h < 360" "0 \<le> s" "s \<le> 100" "0 \<le> v" "v \<le> 100" by simp_all
  from hsv_to_rgb_bytes [OF this] show "\<exists>rgb. hsv_to_rgb h s v = Some rgb" by blast
qed

theorem numeric_pipeline_total_witness:
  "(\<exists>n. iterate reference \<lparr>real_part = 1 / 4, imag_part = 1 / 2\<rparr> = Some n) \<and>
   (0::real) < 1 \<and> 0 < img_width reference \<and> 0 < img_height reference \<and>
   (\<exists>c'. map_pixel reference 0 0 1 (center reference) = Some c') \<and>
   (\<exists>rgb. hsv_to_rgb 359 100 100 = Some rgb)"
  using numeric_pipeline_total
          [of reference "\<lparr>real_part = 1 / 4, imag_part = 1 / 2\<rparr>" 1 0 0 "center reference"
              359 100 100]
  by (simp add: reference_simps)

subsection \<open>The dispatch of a frame\<close>

lemma launch_indices_upt:
  "launch_indices block_count threads_per_block = map int [0..<block_count * threads_per_block]"
proof (induction block_count)
  case 0
  show ?case by (simp add: launch_indices_def)
next
  case (Suc b)
  have blk: "map (\<lambda>t. int (t + b * threads_per_block)) [0..<threads_per_block]
           = map int [b * threads_per_block..<b * threads_per_block + threads_per_block]"
    by (rule nth_equalityI) (simp_all add: add.commute)
  have "launch_indices (Suc b) threads_per_block
        = launch_indices b threads_per_block
          @ map (\<lambda>t. int (t + b * threads_per_block)) [0..<threads_per_block]"
    by (simp add: launch_indices_def)
  also have "\<dots> = map int ([0..<b * threads_per_block]
                 @ [b * threads_per_block..<b * threads_per_block + threads_per_block])"
    by (simp only: Suc.IH blk map_append)
  also have "[0..<b * threads_per_block]
                 @ [b * threads_per_block..<b * threads_per_block + threads_per_block]
             = [0..<Suc b * threads_per_block]"
    using upt_add_eq_append [of 0 "b * threads_per_block" threads_per_block]
    by (simp add: add.commute)
  finally show ?case .
qed

lemma pixel_offset: "3 * (i div w * w) + 3 * (i mod w) = 3 * (i::int)"
proof -
  have "3 * (i div w * w) + 3 * (i mod w) = 3 * (i div w * w + i mod w)"
    by (simp only: distrib_left)
  then show ?thesis by simp
qed

lemma plot_pixel_stores:
  assumes "0 < max_iter p" "0 < img_width p" "0 < img_height p" "zoom \<noteq> 0" "0 \<le> i"
  shows "\<exists>r g b. plot_pixel p cen zoom i = Some [(3 * i, r), (3 * i + 1, g), (3 * i + 2, b)]"
proof -
  have px: "imod i (img_width p) = Some (i mod img_width p)"
    and py: "idiv i (img_width p) = Some (i div img_width p)"
    using assms by (simp_all add: imod_nonneg idiv_nonneg)
  have "img_width p \<noteq> 0" "img_height p \<noteq> 0" using assms by simp_all
  from map_pixel_eq [OF assms(4) this] obtain c
    where c: "map_pixel p (i mod img_width p) (i div img_width p) zoom cen = Some c" by blast
  from iterate_returns [of p c] assms(1) obtain n
    where n: "iterate p c = Some n" "0 \<le> n" "n \<le> max_iter p" by auto
  from pixel_colour_bytes [OF assms(1) n(2,3)] obtain r g b
    where col: "pixel_colour p n = Some (r, g, b)" by blast
  have "plot_pixel p cen zoom i =
          Some [(3 * i, word_of_int r), (3 * i + 1, word_of_int g), (3 * i + 2, word_of_int b)]"
    using assms(2) by (simp add: plot_pixel_def px py c n(1) col pixel_offset Let_def)
  then show ?thesis by blast
qed

lemma kernel_stores_offsets:
  assumes "0 < max_iter p" "0 < img_width p" "0 < img_height p" "zoom \<noteq> 0"
    and "\<forall>i \<in> set is. 0 \<le> i"
  shows "\<exists>ws. kernel_stores p cen zoom is = Some ws \<and>
              map fst ws = concat (map (\<lambda>i. [3 * i, 3 * i + 1, 3 * i + 2]) is)"
  using assms(5)
proof (induction "is")
  case Nil
  show ?case by simp
next
  case (Cons i "is")
  then have "0 \<le> i" by simp
  from plot_pixel_stores [OF assms(1-4) this, of cen] obtain r g b
    where i: "plot_pixel p cen zoom i = Some [(3 * i, r), (3 * i + 1, g), (3 * i + 2, b)]"
    by blast
  from Cons obtain ws
    where ws: "kernel_stores p cen zoom is = Some ws"
      "map fst ws = concat (map (\<lambda>i. [3 * i, 3 * i + 1, 3 * i + 2]) is)"
    by auto
  show ?case by (simp add: i ws)
qed

lemma triple_offsets_upt:
  "concat (map (\<lambda>i. [3 * i, 3 * i + 1, 3 * i + 2]) (map int [0..<n])) = map int [0..<3 * n]"
proof (induction n)
  case 0
  show ?case by simp
next
  case (Suc n)
  have "3 * Suc n = Suc (Suc (Suc (3 * n)))" by simp
  moreover have "[0..<Suc (Suc (Suc (3 * n)))] = [0..<3 * n] @ [3 * n, 3 * n + 1, 3 * n + 2]"
    by simp
  ultimately have "[0..<3 * Suc n] = [0..<3 * n] @ [3 * n, 3 * n + 1, 3 * n + 2]"
    by (simp only:)
  then have "map int [0..<3 * Suc n] = map int [0..<3 * n] @ [3 * int n, 3 * int n + 1, 3 * int n + 2]"
    by simp
  moreover have "concat (map (\<lambda>i. [3 * i, 3 * i + 1, 3 * i + 2]) (map int [0..<Suc n]))
      = concat (map (\<lambda>i. [3 * i, 3 * i + 1, 3 * i + 2]) (map int [0..<n]))
        @ [3 * int n, 3 * int n + 1, 3 * int n + 2]"
    by simp
  ultimately show ?case using Suc by (simp only:)
qed

lemma apply_stores_sweep:
  assumes "map fst ws = map int [k..<k + length ws]" "k + length ws \<le> length buf"
  shows "apply_stores buf ws = Some (take k buf @ map snd ws @ drop (k + length ws) buf)"
  using assms
proof (induction ws arbitrary: k buf)
  case Nil
  then show ?case by simp
next
  case (Cons w ws)
  obtain a v where w: "w = (a, v)" by (cases w)
  have "[k..<k + length (w # ws)] = k # [Suc k..<Suc k + length ws]"
    by (subst upt_conv_Cons) simp_all
  with Cons.prems(1) have "map fst (w # ws) = map int (k # [Suc k..<Suc k + length ws])"
    by (simp only:)
  then have a: "a = int k" and rest: "map fst ws = map int [Suc k..<Suc k + length ws]"
    by (simp_all add: w del: upt_Suc)
  from Cons.prems(2) have len: "Suc k + length ws \<le> length (buf[k := v])" "k < length buf"
    by simp_all
  from Cons.IH [OF rest len(1)]
  have "apply_stores (buf[k := v]) ws
        = Some (take (Suc k) (buf[k := v]) @ map snd ws @ drop (Suc k + length ws) (buf[k := v]))"
    by simp
  also have "take (Suc k) (buf[k := v]) = take k buf @ [v]"
    using len(2) by (simp add: take_Suc_conv_app_nth)
  also have "drop (Suc k + length ws) (buf[k := v]) = drop (Suc k + length ws) buf"
    by simp
  finally show ?case using len(2) by (simp add: w a)
qed

lemma launch_covers_image:
  assumes "0 < img_width p" "0 < img_height p" "256 dvd img_width p * img_height p"
  shows "launch_indices (nat ((img_width p * img_height p) sdiv 256)) (nat 256)
           = map int [0..<nat (img_width p * img_height p)]"
proof -
  let ?N = "img_width p * img_height p"
  have N: "0 < ?N" using assms(1,2) by simp
  then have "?N sdiv 256 = ?N div 256" by (simp add: sdiv_nonneg)
  moreover have "nat (?N div 256) * 256 = nat ?N"
  proof -
    from assms(3) obtain k where k: "?N = 256 * k" by (rule dvdE)
    with N have "0 < k" by simp
    then show ?thesis by (simp add: k nat_mult_distrib)
  qed
  ultimately show ?thesis by (simp add: launch_indices_upt)
qed

lemma dispatch_stores_offsets:
  assumes "0 < max_iter p" "0 < img_width p" "0 < img_height p" "zoom \<noteq> 0"
    and "256 dvd img_width p * img_height p"
  shows "\<exists>ws. dispatch_stores p zoom = Some ws \<and>
              map fst ws = map int [0..<nat (img_width p * img_height p * 3)]"
proof -
  let ?is = "map int [0..<nat (img_width p * img_height p)]"
  have "\<forall>i \<in> set ?is. 0 \<le> i" by simp
  from kernel_stores_offsets [OF assms(1-4) this, of "center p"] obtain ws
    where ws: "kernel_stores p (center p) zoom ?is = Some ws"
      "map fst ws = concat (map (\<lambda>i. [3 * i, 3 * i + 1, 3 * i + 2]) ?is)"
    by blast
  have "3 * nat (img_width p * img_height p) = nat (img_width p * img_height p * 3)"
    by simp
  with ws(2) have "map fst ws = map int [0..<nat (img_width p * img_height p * 3)]"
    by (simp only: triple_offsets_upt)
  moreover have "dispatch_stores p zoom = Some ws"
    using launch_covers_image [OF assms(2,3,5)] ws(1) by (simp add: dispatch_stores_def)
  ultimately show ?thesis by blast
qed

lemma plot_mandelbrot_fills:
  assumes "dispatch_stores p zoom = Some ws" "map fst ws = map int [0..<length buf]"
  shows "plot_mandelbrot p buf zoom = Some (map snd ws)"
proof -
  have "length (map fst ws) = length buf" by (simp only: assms(2)) simp
  then have len: "length ws = length buf" by simp
  then have "map fst ws = map int [0..<0 + length ws]" "0 + length ws \<le> length buf"
    using assms(2) by simp_all
  from apply_stores_sweep [OF this] len show ?thesis
    by (simp add: plot_mandelbrot_def assms(1))
qed

lemma apply_stores_map_of:
  assumes "distinct (map fst ws)" "\<forall>a \<in> fst ` set ws. 0 \<le> a \<and> a < int (length buf)"
  shows "apply_stores buf ws =
           Some (map (\<lambda>k. case map_of ws (int k) of None \<Rightarrow> buf ! k | Some v \<Rightarrow> v)
                     [0..<length buf])"
  using assms
proof (induction ws arbitrary: buf)
  case Nil
  show ?case by (simp add: map_nth)
next
  case (Cons w ws)
  obtain a v where w: "w = (a, v)" by (cases w)
  from Cons.prems have a: "0 \<le> a" "a < int (length buf)" and fresh: "a \<notin> fst ` set ws"
    and d: "distinct (map fst ws)"
    and r: "\<forall>x \<in> fst ` set ws. 0 \<le> x \<and> x < int (length (buf[nat a := v]))"
    by (auto simp: w)
  from fresh have none: "map_of ws a = None" by (simp add: map_of_eq_None_iff)
  have "apply_stores (buf[nat a := v]) ws =
          Some (map (\<lambda>k. case map_of ws (int k) of None \<Rightarrow> buf[nat a := v] ! k | Some v \<Rightarrow> v)
                    [0..<length (buf[nat a := v])])"
    using d r by (rule Cons.IH)
  also have "map (\<lambda>k. case map_of ws (int k) of None \<Rightarrow> buf[nat a := v] ! k | Some v \<Rightarrow> v)
                    [0..<length (buf[nat a := v])]
           = map (\<lambda>k. case map_of (w # ws) (int k) of None \<Rightarrow> buf ! k | Some v \<Rightarrow> v)
                    [0..<length buf]"
  proof (rule nth_equalityI)
    show "length (map (\<lambda>k. case map_of ws (int k) of None \<Rightarrow> buf[nat a := v] ! k | Some v \<Rightarrow> v)
                    [0..<length (buf[nat a := v])])
        = length (map (\<lambda>k. case map_of (w # ws) (int k) of None \<Rightarrow> buf ! k | Some v \<Rightarrow> v)
                    [0..<length buf])"
      by simp
  next
    fix k
    assume "k < length (map (\<lambda>k. case map_of ws (int k) of None \<Rightarrow> buf[nat a := v] ! k | Some v \<Rightarrow> v)
                    [0..<length (buf[nat a := v])])"
    then have k: "k < length buf" by simp
    show "map (\<lambda>k. case map_of ws (int k) of None \<Rightarrow> buf[nat a := v] ! k | Some v \<Rightarrow> v)
                    [0..<length (buf[nat a := v])] ! k
        = map (\<lambda>k. case map_of (w # ws) (int k) of None \<Rightarrow> buf ! k | Some v \<Rightarrow> v)
                    [0..<length buf] ! k"
    proof (cases "int k = a")
      case True
      then have "nat a = k" by simp
      with True k none show ?thesis by (simp add: w split: option.split)
    next
      case False
      then have "nat a \<noteq> k" using a(1) by auto
      with False k show ?thesis by (simp add: w split: option.split)
    qed
  qed
  finally show ?case using a by (simp add: w)
qed

lemma apply_stores_any_order:
  assumes "distinct (map fst ws)" "distinct (map fst ws')" "set ws' = set ws"
    and "\<forall>a \<in> fst ` set ws. 0 \<le> a \<and> a < int (length buf)"
  shows "apply_stores buf ws' = apply_stores buf ws"
proof -
  have "map_of ws' = map_of ws"
    using assms(1-3) by (simp add: map_of_inject_set)
  moreover have "\<forall>a \<in> fst ` set ws'. 0 \<le> a \<and> a < int (length buf)"
    using assms(3,4) by simp
  ultimately show ?thesis
    using apply_stores_map_of [OF assms(1,4)] apply_stores_map_of [OF assms(2), of buf]
    by simp
qed

lemma plot_mandelbrot_defined:
  assumes "0 < max_iter p" "0 < img_width p" "0 < img_height p"
    and "256 dvd img_width p * img_height p" and "zoom \<noteq> 0"
    and "length buf = nat (img_width p * img_height p * 3)"
  shows "\<exists>buf'. plot_mandelbrot p buf zoom = Some buf' \<and> length buf' = length buf"
proof -
  from dispatch_stores_offsets [OF assms(1-3,5,4)] obtain ws
    where ws: "dispatch_stores p zoom = Some ws"
      "map fst ws = map int [0..<nat (img_width p * img_height p * 3)]"
    by blast
  have "length (map fst ws) = length buf" by (simp only: ws(2)) (simp add: assms(6))
  then have "length (map snd ws) = length buf" by simp
  moreover have "plot_mandelbrot p buf zoom = Some (map snd ws)"
    using plot_mandelbrot_fills [of p zoom ws buf] ws assms(6) by simp
  ultimately show ?thesis by blast
qed

text \<open>
  C7. One dispatch of a frame writes every byte of the buffer of \<open>width * height * 3\<close>
  bytes exactly once. The thread of index \<open>i\<close> takes the pixel
  \<open>(i mod width, i div width)\<close>, whose offset \<open>3 * (py * width + px)\<close> is \<open>3 * i\<close>, so the
  stores of two different threads never meet. When 256 divides \<open>width * height\<close>, as for
  the reference 1920 by 1080, the indices of the launch are exactly
  \<open>0, \<dots>, width * height - 1\<close>: the offsets stored, in the order of the threads, are
  \<open>0, 1, \<dots>, width * height * 3 - 1\<close>, none out of bounds, and the buffer after the
  dispatch holds the bytes stored.
\<close>

theorem dispatch_writes_each_byte_once:
  assumes "0 < max_iter p" "0 < img_width p" "0 < img_height p"
    and "256 dvd img_width p * img_height p" and "zoom \<noteq> 0"
  shows "(0 \<le> i \<longrightarrow>
            3 * (i div img_width p * img_width p + i mod img_width p) = 3 * i \<and>
            (\<exists>r g b. plot_pixel p cen zoom i = Some [(3 * i, r), (3 * i + 1, g), (3 * i + 2, b)])) \<and>
         (0 \<le> i \<and> 0 \<le> j \<and> i \<noteq> j \<longrightarrow>
            (\<exists>wi wj. plot_pixel p cen zoom i = Some wi \<and> plot_pixel p cen zoom j = Some wj \<and>
                     fst ` set wi \<inter> fst ` set wj = {})) \<and>
         launch_indices (nat ((img_width p * img_height p) sdiv 256)) 256
           = map int [0..<nat (img_width p * img_height p)] \<and>
         (\<exists>ws. dispatch_stores p zoom = Some ws \<and>
               map fst ws = map int [0..<nat (img_width p * img_height p * 3)] \<and>
               distinct (map fst ws) \<and>
               (\<forall>buf. length buf = nat (img_width p * img_height p * 3) \<longrightarrow>
                      plot_mandelbrot p buf zoom = Some (map snd ws) \<and>
                      (\<forall>ws'. distinct (map fst ws') \<and> set ws' = set ws \<longrightarrow>
                             apply_stores buf ws' = Some (map snd ws))))"
proof (intro conjI impI)
  assume "0 \<le> i"
  show "3 * (i div img_width p * img_width p + i mod img_width p) = 3 * i" by simp
  from plot_pixel_stores [OF assms(1-3,5) \<open>0 \<le> i\<close>]
  show "\<exists>r g b. plot_pixel p cen zoom i = Some [(3 * i, r), (3 * i + 1, g), (3 * i + 2, b)]" .
next
  assume ij: "0 \<le> i \<and> 0 \<le> j \<and> i \<noteq> j"
  then have "0 \<le> i" "0 \<le> j" by simp_all
  from plot_pixel_stores [OF assms(1-3,5) this(1), of cen] obtain r g b
    where i: "plot_pixel p cen zoom i = Some [(3 * i, r), (3 * i + 1, g), (3 * i + 2, b)]"
    by blast
  from plot_pixel_stores [OF assms(1-3,5) \<open>0 \<le> j\<close>, of cen] obtain r' g' b'
    where j: "plot_pixel p cen zoom j = Some [(3 * j, r'), (3 * j + 1, g'), (3 * j + 2, b')]"
    by blast
  have "fst ` set [(3 * i, r), (3 * i + 1, g), (3 * i + 2, b)]
          \<inter> fst ` set [(3 * j, r'), (3 * j + 1, g'), (3 * j + 2, b')] = {}"
    using ij by auto
  with i j
  show "\<exists>wi wj. plot_pixel p cen zoom i = Some wi \<and> plot_pixel p cen zoom j = Some wj \<and>
                 fst ` set wi \<inter> fst ` set wj = {}"
    by blast
next
  show "launch_indices (nat ((img_width p * img_height p) sdiv 256)) 256
           = map int [0..<nat (img_width p * img_height p)]"
    using launch_covers_image [OF assms(2-4)] by simp
next
  from dispatch_stores_offsets [OF assms(1-3,5,4)] obtain ws
    where ws: "dispatch_stores p zoom = Some ws"
      "map fst ws = map int [0..<nat (img_width p * img_height p * 3)]"
    by blast
  have d: "distinct (map fst ws)"
    by (simp only: ws(2)) (simp add: distinct_map inj_on_def)
  have fill: "plot_mandelbrot p buf zoom = Some (map snd ws) \<and>
      (\<forall>ws'. distinct (map fst ws') \<and> set ws' = set ws \<longrightarrow>
             apply_stores buf ws' = Some (map snd ws))"
    if len: "length buf = nat (img_width p * img_height p * 3)" for buf
  proof (intro conjI allI impI)
    show pm: "plot_mandelbrot p buf zoom = Some (map snd ws)"
      using plot_mandelbrot_fills [of p zoom ws buf] ws len by simp
    fix ws' assume ws': "distinct (map fst ws') \<and> set ws' = set ws"
    have "set (map fst ws) = set (map int [0..<length buf])" by (simp only: ws(2) len)
    then have "\<forall>a \<in> fst ` set ws. 0 \<le> a \<and> a < int (length buf)" by auto
    with d ws' have "apply_stores buf ws' = apply_stores buf ws"
      by (intro apply_stores_any_order) simp_all
    also have "\<dots> = plot_mandelbrot p buf zoom" by (simp add: plot_mandelbrot_def ws(1))
    finally show "apply_stores buf ws' = Some (map snd ws)" by (simp only: pm)
  qed
  show "\<exists>ws. dispatch_stores p zoom = Some ws \<and>
               map fst ws = map int [0..<nat (img_width p * img_height p * 3)] \<and>
               distinct (map fst ws) \<and>
               (\<forall>buf. length buf = nat (img_width p * img_height p * 3) \<longrightarrow>
                      plot_mandelbrot p buf zoom = Some (map snd ws) \<and>
                      (\<forall>ws'. distinct (map fst ws') \<and> set ws' = set ws \<longrightarrow>
                             apply_stores buf ws' = Some (map snd ws)))"
    using ws d fill by blast
qed

theorem dispatch_writes_each_byte_once_witness:
  "0 < max_iter reference \<and> 0 < img_width reference \<and> 0 < img_height reference \<and>
   256 dvd img_width reference * img_height reference \<and> (1::real) \<noteq> 0 \<and>
   img_width reference * img_height reference = 8100 * 256 \<and>
   (\<exists>r g b. plot_pixel reference (center reference) 1 1925 = Some [(5775, r), (5776, g), (5777, b)]) \<and>
   (\<exists>wi wj. plot_pixel reference (center reference) 1 5 = Some wi \<and>
            plot_pixel reference (center reference) 1 7 = Some wj \<and>
            fst ` set wi \<inter> fst ` set wj = {}) \<and>
   (\<exists>ws. dispatch_stores reference 1 = Some ws \<and>
         map fst ws = map int [0..<nat (img_width reference * img_height reference * 3)] \<and>
         plot_mandelbrot reference
             (replicate (nat (img_width reference * img_height reference * 3)) 0) 1
           = Some (map snd ws) \<and>
         distinct (map fst (rev ws)) \<and> set (rev ws) = set ws \<and>
         apply_stores (replicate (nat (img_width reference * img_height reference * 3)) 0) (rev ws)
           = Some (map snd ws))"
proof -
  have h: "0 < max_iter reference" "0 < img_width reference" "0 < img_height reference"
    "256 dvd img_width reference * img_height reference" "(1::real) \<noteq> 0"
    by (simp_all add: reference_simps)
  have n: "img_width reference * img_height reference = 8100 * 256"
    by (simp add: reference_simps)
  from dispatch_writes_each_byte_once [OF h, of 1925 "center reference" 5]
  have a: "\<exists>r g b. plot_pixel reference (center reference) 1 1925 = Some [(5775, r), (5776, g), (5777, b)]"
    by simp
  have "(0::int) \<le> 5 \<and> (0::int) \<le> 7 \<and> (5::int) \<noteq> 7" by simp
  with dispatch_writes_each_byte_once [OF h, of 5 "center reference" 7]
  have b: "\<exists>wi wj. plot_pixel reference (center reference) 1 5 = Some wi \<and>
            plot_pixel reference (center reference) 1 7 = Some wj \<and>
            fst ` set wi \<inter> fst ` set wj = {}"
    by blast
  let ?buf = "replicate (nat (img_width reference * img_height reference * 3)) (0 :: 8 word)"
  from dispatch_writes_each_byte_once [OF h, of 0 "center reference" 0]
  obtain ws where ws: "dispatch_stores reference 1 = Some ws"
     "map fst ws = map int [0..<nat (img_width reference * img_height reference * 3)]"
     "distinct (map fst ws)"
     "\<forall>buf. length buf = nat (img_width reference * img_height reference * 3) \<longrightarrow>
            plot_mandelbrot reference buf 1 = Some (map snd ws) \<and>
            (\<forall>ws'. distinct (map fst ws') \<and> set ws' = set ws \<longrightarrow>
                   apply_stores buf ws' = Some (map snd ws))"
    by blast
  have "length ?buf = nat (img_width reference * img_height reference * 3)"
    by (simp only: length_replicate)
  with ws(4) have fill: "plot_mandelbrot reference ?buf 1 = Some (map snd ws)"
    and any: "\<forall>ws'. distinct (map fst ws') \<and> set ws' = set ws \<longrightarrow>
                   apply_stores ?buf ws' = Some (map snd ws)"
    by blast+
  have r: "distinct (map fst (rev ws))" "set (rev ws) = set ws"
    using ws(3) by (simp_all add: rev_map [symmetric])
  with any have "apply_stores ?buf (rev ws) = Some (map snd ws)" by blast
  with ws(1,2) fill r have c: "\<exists>ws. dispatch_stores reference 1 = Some ws \<and>
         map fst ws = map int [0..<nat (img_width reference * img_height reference * 3)] \<and>
         plot_mandelbrot reference ?buf 1 = Some (map snd ws) \<and>
         distinct (map fst (rev ws)) \<and> set (rev ws) = set ws \<and>
         apply_stores ?buf (rev ws) = Some (map snd ws)"
    by blast
  from h n a b c show ?thesis by blast
qed

subsection \<open>The sequence of frames\<close>

lemma frame_loop_stop: "\<not> zoom \<le> zoom_end p \<Longrightarrow> frame_loop p n buf zoom i = Some []"
  by (subst frame_loop.simps) simp

lemma frame_loop_step:
  assumes "0 < max_iter p" "0 < img_width p" "0 < img_height p"
    and "256 dvd img_width p * img_height p" and "zoom \<noteq> 0"
    and "length buf = nat (img_width p * img_height p * 3)"
    and "zoom \<le> zoom_end p" "n \<noteq> 0"
  shows "\<exists>buf'. length buf' = length buf \<and>
           frame_loop p n buf zoom i = do {
             rest \<leftarrow> frame_loop p n buf' (fmul zoom (zoom_fact p)) (i + 1);
             Some (\<lparr> frame_id = i, frame_zoom = zoom, frame_percent = (i * 100) sdiv n,
                      frame_pixels = buf' \<rparr> # rest)
           }"
proof -
  from plot_mandelbrot_defined [OF assms(1-6)] obtain buf'
    where buf': "plot_mandelbrot p buf zoom = Some buf'" "length buf' = length buf" by blast
  have "frame_loop p n buf zoom i = do {
             rest \<leftarrow> frame_loop p n buf' (fmul zoom (zoom_fact p)) (i + 1);
             Some (\<lparr> frame_id = i, frame_zoom = zoom, frame_percent = (i * 100) sdiv n,
                      frame_pixels = buf' \<rparr> # rest)
           }"
    using assms(7,8) by (subst frame_loop.simps) (simp add: idiv_def buf'(1))
  with buf'(2) show ?thesis by blast
qed

text \<open>
  The estimate is 0 when the last zoom is the first one, whatever the factor (a double
  above 1 is at least \<open>1 + 2^-52\<close>): \<open>log 1\<close> is 0. The first pass of the loop then divides
  by 0 for the percentage, before the first frame.
\<close>

lemma ln_factor_pos:
  assumes "1 + 2 powi (- 52) \<le> (f::real)"
  shows "0 < rnd (ln f)"
proof -
  define x :: real where "x = 2 powi (- 52)"
  have x: "0 < x" "x \<le> 1 / 2" by (simp_all add: x_def power_int_minus_divide)
  have "x * x \<le> x * (1 / 2)" using x by (intro mult_left_mono) simp_all
  then have "x / 2 \<le> x - x\<^sup>2" by (simp add: power2_eq_square)
  also have "\<dots> \<le> ln (1 + x)" using x by (intro ln_one_plus_pos_lower_bound) simp_all
  also have "\<dots> \<le> ln f" using assms x(1) by (intro ln_mono) (simp_all add: x_def)
  finally have "x / 2 \<le> ln f" .
  moreover have "x / 2 = real_of_int 1 * 2 powi (- 53)"
  proof -
    have "(2::real) powi (- 53) * 2 = 2 powi (- 52)"
      using power_int_minus_mult [of "2::real" "- 52"] by simp
    then show ?thesis by (simp add: x_def)
  qed
  ultimately have "rnd (real_of_int 1 * 2 powi (- 53)) \<le> rnd (ln f)"
    by (intro rnd_mono) simp
  moreover have "rnd (real_of_int 1 * 2 powi (- 53)) = real_of_int 1 * 2 powi (- 53)"
    by (rule rnd_representable) simp_all
  ultimately show ?thesis using two_powi_pos [of "- 53"] by simp
qed

lemma img_count_zero:
  assumes "zoom_end p = zoom_start p" "zoom_start p \<noteq> 0" "1 + 2 powi (- 52) \<le> zoom_fact p"
  shows "img_count p = Some 0"
proof -
  have f: "0 < zoom_fact p" using assms(3) two_powi_pos [of "- 52"] by linarith
  have "rnd (ln (zoom_fact p)) \<noteq> 0" using ln_factor_pos [OF assms(3)] by simp
  then show ?thesis
    using assms(1,2) f
    by (simp add: img_count_def fdiv_def flog_def double_to_int_def trunc_def)
qed

lemma main_estimate_zero:
  assumes "img_count p = Some 0" "zoom_start p \<le> zoom_end p"
  shows "main p = None"
proof -
  have "frame_loop p 0 buf (zoom_start p) 0 = None" for buf
    using assms(2) by (subst frame_loop.simps) (simp add: idiv_def)
  then show ?thesis by (simp add: main_def assms(1))
qed

text \<open>
  C8 says that the number of frames comes from the loop condition \<open>zoom \<le> zoom_end\<close> and
  not from the estimate, which only serves the progress display. The code runs against
  this where the estimate is 0: with \<open>zoom_start = zoom_end = 1\<close> and \<open>zoom_fact = 2\<close> the
  loop condition admits one frame, and that frame can be plotted; but the estimate is
  \<open>(int) (log 1 / log 2) = 0\<close>, and the first pass divides \<open>img_id * 100\<close> by it before the
  frame is plotted: the run stops without a frame.
\<close>

theorem frame_estimate_zero_stops_run:
  "zoom_start (reference\<lparr>zoom_start := 1, zoom_end := 1, zoom_fact := 2\<rparr>)
     \<le> zoom_end (reference\<lparr>zoom_start := 1, zoom_end := 1, zoom_fact := 2\<rparr>) \<and>
   (\<exists>buf'. plot_mandelbrot (reference\<lparr>zoom_start := 1, zoom_end := 1, zoom_fact := 2\<rparr>)
             (replicate (nat (img_width reference * img_height reference * 3)) 0)
             (zoom_start (reference\<lparr>zoom_start := 1, zoom_end := 1, zoom_fact := 2\<rparr>))
           = Some buf') \<and>
   img_count (reference\<lparr>zoom_start := 1, zoom_end := 1, zoom_fact := 2\<rparr>) = Some 0 \<and>
   idiv (0 * 100) 0 = None \<and>
   main (reference\<lparr>zoom_start := 1, zoom_end := 1, zoom_fact := 2\<rparr>) = None"
proof -
  let ?p = "reference\<lparr>zoom_start := 1, zoom_end := 1, zoom_fact := 2\<rparr>"
  let ?buf = "replicate (nat (img_width reference * img_height reference * 3)) (0 :: 8 word)"
  have le: "zoom_start ?p \<le> zoom_end ?p" by simp
  have sz: "0 < max_iter ?p" "0 < img_width ?p" "0 < img_height ?p"
    "256 dvd img_width ?p * img_height ?p" "zoom_start ?p \<noteq> 0"
    by (simp_all add: reference_simps)
  have len: "length ?buf = nat (img_width ?p * img_height ?p * 3)"
    by (simp only: length_replicate) simp
  from plot_mandelbrot_defined [OF sz len]
  have pl: "\<exists>buf'. plot_mandelbrot ?p ?buf (zoom_start ?p) = Some buf'"
    by (elim exE conjE) (rule exI)
  have "1 + 2 powi (- 52) \<le> zoom_fact ?p" by (simp add: power_int_minus_divide)
  then have n: "img_count ?p = Some 0" by (intro img_count_zero) simp_all
  have d: "idiv (0 * 100) 0 = None" by (simp add: idiv_def)
  from n le have "main ?p = None" by (rule main_estimate_zero)
  with le pl n d show ?thesis by (intro conjI)
qed

text \<open>
  Where the estimate is not 0 the loop decides. With \<open>zoom_start = 1\<close>, \<open>zoom_fact = 2\<close> and
  \<open>zoom_end = 10\<close> the zooms of the frames are 1, 2, 4, 8, all exact in binary64, the
  loop stops at 16, and the estimate is 3.
\<close>

lemma rnd_error_crude: "\<bar>rnd x - x\<bar> \<le> \<bar>x\<bar> / 1000 + 1 / 1000"
proof -
  have "(2::real) powi (- 53) \<le> 1 / 1000" "(2::real) powi (- 1075) \<le> 1 / 1000"
    by (simp_all add: power_int_minus_divide)
  then have "\<bar>x\<bar> * 2 powi (- 53) \<le> \<bar>x\<bar> * (1 / 1000)" "(2::real) powi (- 1075) \<le> 1 / 1000"
    by (simp_all add: mult_left_mono)
  with rnd_error [of x] show ?thesis by linarith
qed

lemma ln_two_ten:
  "1 / 4 \<le> ln (2::real)" "16 * ln (2::real) \<le> 5 * ln 10" "2 * ln (10::real) \<le> 7 * ln 2"
proof -
  have "exp 1 \<le> (2 ^ 4 :: real)" using exp_le by simp
  then have "ln (exp 1) \<le> ln (2 ^ 4 :: real)" by (intro ln_mono) simp_all
  then show "1 / 4 \<le> ln (2::real)" by (simp only: ln_realpow ln_exp; simp)
  have "ln (2 ^ 16 :: real) \<le> ln (10 ^ 5)" by (intro ln_mono) simp_all
  then show "16 * ln (2::real) \<le> 5 * ln 10" by (simp only: ln_realpow; simp)
  have "ln (10 ^ 2 :: real) \<le> ln (2 ^ 7)" by (intro ln_mono) simp_all
  then show "2 * ln (10::real) \<le> 7 * ln 2" by (simp only: ln_realpow; simp)
qed

lemma img_count_example:
  assumes "zoom_start p = 1" "zoom_fact p = 2" "zoom_end p = 10"
  shows "img_count p = Some 3"
proof -
  define n :: real where "n = rnd (ln 10)"
  define d :: real where "d = rnd (ln 2)"
  have l: "0 < ln (2::real)" "0 < ln (10::real)" by simp_all
  have en: "\<bar>n - ln 10\<bar> \<le> ln 10 / 1000 + 1 / 1000"
    using rnd_error_crude [of "ln 10"] l(2) by (simp add: n_def)
  have ed: "\<bar>d - ln 2\<bar> \<le> ln 2 / 1000 + 1 / 1000"
    using rnd_error_crude [of "ln 2"] l(1) by (simp add: d_def)
  have dpos: "0 < d" using ed ln_two_ten(1) by linarith
  have "3 * d \<le> n" using en ed ln_two_ten by linarith
  then have lo: "3 \<le> n / d" using dpos by (simp add: pos_le_divide_eq)
  have "n \<le> 15 / 4 * d" using en ed ln_two_ten by linarith
  then have hi: "n / d \<le> 15 / 4" using dpos by (simp add: pos_divide_le_eq)
  have "rnd 3 \<le> rnd (n / d)" using lo by (rule rnd_mono)
  then have q3: "3 \<le> rnd (n / d)" by simp
  have "rnd (n / d) \<le> rnd (real_of_int 15 / 2 ^ 2)" using hi by (intro rnd_mono) simp
  also have "\<dots> = real_of_int 15 / 2 ^ 2" by (rule rnd_dyadic) simp_all
  finally have q4: "rnd (n / d) < 4" by simp
  from q3 q4 have "\<lfloor>rnd (n / d)\<rfloor> = 3" by (simp add: floor_eq_iff)
  with q3 q4 have "double_to_int (rnd (n / d)) = Some 3"
    by (simp add: double_to_int_def trunc_def)
  moreover have "img_count p = double_to_int (rnd (n / d))"
    using dpos by (simp add: img_count_def assms fdiv_def flog_def n_def d_def)
  ultimately show ?thesis by simp
qed

lemma frame_loop_example:
  assumes v: "0 < max_iter p" "0 < img_width p" "0 < img_height p"
      "256 dvd img_width p * img_height p"
    and z: "zoom_fact p = 2" "zoom_end p = 10"
    and len: "length buf = nat (img_width p * img_height p * 3)"
  shows "\<exists>fs. frame_loop p 3 buf 1 0 = Some fs \<and> map frame_zoom fs = [1, 2, 4, 8] \<and>
           map frame_id fs = [0, 1, 2, 3] \<and> map frame_percent fs = [0, 33, 66, 100]"
proof -
  from frame_loop_step [OF v _ len, of 1 3 0] z obtain b1
    where b1: "length b1 = nat (img_width p * img_height p * 3)"
      "frame_loop p 3 buf 1 0 = do {
         rest \<leftarrow> frame_loop p 3 b1 2 1;
         Some (\<lparr>frame_id = 0, frame_zoom = 1, frame_percent = 0, frame_pixels = b1\<rparr> # rest) }"
    using len by (auto simp: fmul_def)
  from frame_loop_step [OF v _ b1(1), of 2 3 1] z obtain b2
    where b2: "length b2 = nat (img_width p * img_height p * 3)"
      "frame_loop p 3 b1 2 1 = do {
         rest \<leftarrow> frame_loop p 3 b2 4 2;
         Some (\<lparr>frame_id = 1, frame_zoom = 2, frame_percent = 33, frame_pixels = b2\<rparr> # rest) }"
    using b1(1) by (auto simp: signed_divide_int_def fmul_def)
  from frame_loop_step [OF v _ b2(1), of 4 3 2] z obtain b3
    where b3: "length b3 = nat (img_width p * img_height p * 3)"
      "frame_loop p 3 b2 4 2 = do {
         rest \<leftarrow> frame_loop p 3 b3 8 3;
         Some (\<lparr>frame_id = 2, frame_zoom = 4, frame_percent = 66, frame_pixels = b3\<rparr> # rest) }"
    using b2(1) by (auto simp: signed_divide_int_def fmul_def)
  from frame_loop_step [OF v _ b3(1), of 8 3 3] z obtain b4
    where b4: "length b4 = nat (img_width p * img_height p * 3)"
      "frame_loop p 3 b3 8 3 = do {
         rest \<leftarrow> frame_loop p 3 b4 16 4;
         Some (\<lparr>frame_id = 3, frame_zoom = 8, frame_percent = 100, frame_pixels = b4\<rparr> # rest) }"
    using b3(1) by (auto simp: signed_divide_int_def fmul_def)
  have stop: "frame_loop p 3 b4 16 4 = Some []"
    using z by (simp add: frame_loop_stop)
  show ?thesis by (simp add: b1(2) b2(2) b3(2) b4(2) stop)
qed

lemma main_example:
  assumes "0 < max_iter p" "0 < img_width p" "0 < img_height p"
      "256 dvd img_width p * img_height p"
    and "zoom_start p = 1" "zoom_fact p = 2" "zoom_end p = 10"
  shows "img_count p = Some 3 \<and>
         (\<exists>fs. main p = Some fs \<and> map frame_zoom fs = [1, 2, 4, 8] \<and>
               map frame_id fs = [0, 1, 2, 3] \<and> map frame_percent fs = [0, 33, 66, 100] \<and>
               length fs = 4)"
proof -
  have n: "img_count p = Some 3" using assms(5-7) by (rule img_count_example)
  have "length (replicate (nat (img_width p * img_height p * 3)) (0 :: 8 word))
          = nat (img_width p * img_height p * 3)"
    by simp
  from frame_loop_example [OF assms(1-4,6,7) this] obtain fs
    where fs: "frame_loop p 3 (replicate (nat (img_width p * img_height p * 3)) 0) 1 0 = Some fs"
      "map frame_zoom fs = [1, 2, 4, 8]" "map frame_id fs = [0, 1, 2, 3]"
      "map frame_percent fs = [0, 33, 66, 100]"
    by auto
  have m: "main p = Some fs" by (simp add: main_def n assms(5) fs(1))
  have "length (map frame_zoom fs) = 4" by (simp only: fs(2)) simp
  then have "length fs = 4" by simp
  with n m fs show ?thesis by auto
qed

text \<open>
  The estimate is 0 as well when the last zoom is above the first and below its product
  with the factor. With \<open>zoom_start = 1\<close>, \<open>zoom_end = 1.5\<close> and \<open>zoom_fact = 2\<close> the loop
  condition admits the frame at zoom 1, the estimate is \<open>(int) (log 1.5 / log 2) = 0\<close>, and
  the run stops at the division of the first pass.
\<close>

lemma img_count_below_factor:
  assumes "zoom_start p = 1" "zoom_fact p = 2" "zoom_end p = 3 / 2"
  shows "img_count p = Some 0"
proof -
  define n :: real where "n = rnd (ln (3 / 2))"
  define d :: real where "d = rnd (ln 2)"
  have r: "rnd (3 / 2) = 3 / 2"
  proof -
    have "rnd (real_of_int 3 / 2 ^ 1) = real_of_int 3 / 2 ^ 1" by (rule rnd_dyadic) simp_all
    then show ?thesis by simp
  qed
  have l0: "0 \<le> ln (3 / 2 :: real)" by simp
  have "ln ((3 / 2) ^ 4 :: real) \<le> ln (2 ^ 3)" by (intro ln_mono) (simp_all add: power_divide)
  then have l1: "4 * ln (3 / 2 :: real) \<le> 3 * ln 2" by (simp only: ln_realpow; simp)
  have en: "\<bar>n - ln (3 / 2)\<bar> \<le> ln (3 / 2) / 1000 + 1 / 1000"
    using rnd_error_crude [of "ln (3 / 2)"] l0 by (simp add: n_def)
  have ed: "\<bar>d - ln 2\<bar> \<le> ln 2 / 1000 + 1 / 1000"
    using rnd_error_crude [of "ln 2"] by (simp add: d_def)
  have dpos: "0 < d" using ed ln_two_ten(1) by linarith
  have n0: "0 \<le> n" unfolding n_def using l0 by (rule rnd_nonneg)
  have "n \<le> 7 / 8 * d" using en ed l0 l1 ln_two_ten(1) by linarith
  then have hi: "n / d \<le> 7 / 8" using dpos by (simp add: pos_divide_le_eq)
  have lo: "0 \<le> n / d" using n0 dpos by simp
  have q0: "0 \<le> rnd (n / d)" using lo by (rule rnd_nonneg)
  have "rnd (n / d) \<le> rnd (real_of_int 7 / 2 ^ 3)" using hi by (intro rnd_mono) simp
  also have "\<dots> = real_of_int 7 / 2 ^ 3" by (rule rnd_dyadic) simp_all
  finally have q1: "rnd (n / d) < 1" by simp
  from q0 q1 have "\<lfloor>rnd (n / d)\<rfloor> = 0" by (simp add: floor_eq_iff)
  with q0 q1 have "double_to_int (rnd (n / d)) = Some 0"
    by (simp add: double_to_int_def trunc_def)
  moreover have "img_count p = double_to_int (rnd (n / d))"
    using dpos [unfolded d_def] by (simp add: img_count_def assms fdiv_def flog_def n_def d_def r)
  ultimately show ?thesis by simp
qed

lemma main_below_factor:
  assumes "zoom_start p = 1" "zoom_fact p = 2" "zoom_end p = 3 / 2"
  shows "main p = None"
proof -
  have "img_count p = Some 0" using assms by (rule img_count_below_factor)
  moreover have "zoom_start p \<le> zoom_end p" by (simp add: assms)
  ultimately show ?thesis by (rule main_estimate_zero)
qed

text \<open>
  The zooms of the frames are rounded products. With \<open>zoom_start = 1\<close>, \<open>zoom_fact = 1.1\<close>
  and \<open>zoom_end = 1.21\<close> the second zoom is the double of 1.1, \<open>0x1.199999999999ap+0\<close>,
  and its product with the factor rounds to \<open>0x1.35c28f5c28f5dp+0\<close>, one unit in the last
  place above the double of 1.21: the loop stops after two frames, where the exact product
  1.21 would admit a third. The estimate is not 0 there.
\<close>

lemma zoom_fact_double: "rnd 1.1 = 4953959590107546 / 2 ^ 52"
proof -
  have "rnd 1.1 = real_of_int (rhe (1.1 * 2 ^ 52)) / 2 ^ 52"
    by (rule rnd_eval) simp_all
  also have "rhe (1.1 * 2 ^ 52) = 4953959590107546"
    by (simp add: rhe_def Let_def)
  finally show ?thesis by simp
qed

lemma zoom_end_double: "rnd 1.21 = 5449355549118300 / 2 ^ 52"
proof -
  have "rnd 1.21 = real_of_int (rhe (1.21 * 2 ^ 52)) / 2 ^ 52"
    by (rule rnd_eval) simp_all
  also have "rhe (1.21 * 2 ^ 52) = 5449355549118300"
    by (simp add: rhe_def Let_def)
  finally show ?thesis by simp
qed

lemma zoom_square_double:
  "rnd (4953959590107546 / 2 ^ 52 * (4953959590107546 / 2 ^ 52)) = 5449355549118301 / 2 ^ 52"
proof -
  let ?x = "4953959590107546 / 2 ^ 52 * (4953959590107546 / 2 ^ 52) :: real"
  have "rnd ?x = real_of_int (rhe (?x * 2 ^ 52)) / 2 ^ 52"
    by (rule rnd_eval) simp_all
  also have "rhe (?x * 2 ^ 52) = 5449355549118301"
    by (simp add: rhe_def Let_def)
  finally show ?thesis by simp
qed

lemma frame_loop_rounds:
  assumes v: "0 < max_iter p" "0 < img_width p" "0 < img_height p"
      "256 dvd img_width p * img_height p"
    and z: "zoom_fact p = rnd 1.1" "zoom_end p = rnd 1.21" and n: "n \<noteq> 0"
    and len: "length buf = nat (img_width p * img_height p * 3)"
  shows "\<exists>fs. frame_loop p n buf 1 0 = Some fs \<and>
           map frame_zoom fs = [1, 4953959590107546 / 2 ^ 52]"
proof -
  define z1 :: real where "z1 = 4953959590107546 / 2 ^ 52"
  define z2 :: real where "z2 = 5449355549118301 / 2 ^ 52"
  have f1: "fmul 1 (zoom_fact p) = z1"
  proof -
    have "rnd (real_of_int 4953959590107546 / 2 ^ 52) = real_of_int 4953959590107546 / 2 ^ 52"
      by (rule rnd_dyadic) simp_all
    then show ?thesis by (simp add: fmul_def z(1) zoom_fact_double z1_def)
  qed
  have f2: "fmul z1 (zoom_fact p) = z2"
    unfolding fmul_def z(1) zoom_fact_double z1_def z2_def by (rule zoom_square_double)
  have le1: "1 \<le> zoom_end p" "z1 \<le> zoom_end p" "\<not> z2 \<le> zoom_end p"
    unfolding z(2) zoom_end_double z1_def z2_def by simp_all
  have nz: "z1 \<noteq> 0" by (simp add: z1_def)
  from frame_loop_step [OF v _ len le1(1) n, of 0] obtain b1
    where b1: "length b1 = nat (img_width p * img_height p * 3)"
      "frame_loop p n buf 1 0 = do {
         rest \<leftarrow> frame_loop p n b1 z1 1;
         Some (\<lparr>frame_id = 0, frame_zoom = 1, frame_percent = (0 * 100) sdiv n,
                 frame_pixels = b1\<rparr> # rest) }"
    using len by (auto simp: f1)
  from frame_loop_step [OF v nz b1(1) le1(2) n, of 1] obtain b2
    where b2: "length b2 = nat (img_width p * img_height p * 3)"
      "frame_loop p n b1 z1 1 = do {
         rest \<leftarrow> frame_loop p n b2 z2 2;
         Some (\<lparr>frame_id = 1, frame_zoom = z1,
                 frame_percent = (1 * 100) sdiv n, frame_pixels = b2\<rparr> # rest) }"
    using b1(1) by (auto simp: f2)
  have stop: "frame_loop p n b2 z2 2 = Some []"
    using le1(3) by (rule frame_loop_stop)
  have "\<exists>fs. frame_loop p n buf 1 0 = Some fs \<and> map frame_zoom fs = [1, z1]"
    by (simp add: b1(2) b2(2) stop)
  then show ?thesis by (simp only: z1_def)
qed


lemma img_count_rounds:
  assumes "zoom_start p = 1" "zoom_fact p = rnd 1.1" "zoom_end p = rnd 1.21"
  shows "\<exists>k. img_count p = Some k \<and> 1 \<le> k \<and> k \<le> 4"
proof -
  define f :: real where "f = 4953959590107546 / 2 ^ 52"
  define e :: real where "e = 5449355549118300 / 2 ^ 52"
  define n :: real where "n = rnd (ln e)"
  define d :: real where "d = rnd (ln f)"
  have fe: "1 + 1 / 10 \<le> f" "f \<le> e" "e \<le> f ^ 3" "0 < f" "0 < e" "e \<noteq> 0"
    by (simp_all add: f_def e_def power3_eq_cube)
  have re: "rnd e = e"
  proof -
    have "rnd (real_of_int 5449355549118300 / 2 ^ 52) = real_of_int 5449355549118300 / 2 ^ 52"
      by (rule rnd_dyadic) simp_all
    then show ?thesis by (simp add: e_def)
  qed
  have "(1::real) / 10 - (1 / 10)\<^sup>2 \<le> ln (1 + 1 / 10)"
    by (rule ln_one_plus_pos_lower_bound) simp_all
  also have "\<dots> \<le> ln f" using fe(1) by (intro ln_mono) simp_all
  finally have L: "9 / 100 \<le> ln f" by (simp add: power2_eq_square)
  have "ln f \<le> ln e" using fe(2,4) by (intro ln_mono) simp_all
  then have dn: "d \<le> n" unfolding d_def n_def by (rule rnd_mono)
  have "ln e \<le> ln (f ^ 3)" using fe(3,5) by (intro ln_mono) simp_all
  then have E: "ln e \<le> 3 * ln f" using fe(4) by (simp add: ln_realpow)
  have E0: "0 \<le> ln e" using L \<open>ln f \<le> ln e\<close> by linarith
  have en: "\<bar>n - ln e\<bar> \<le> ln e / 1000 + 1 / 1000"
    using rnd_error_crude [of "ln e"] E0 by (simp add: n_def)
  have ed: "\<bar>d - ln f\<bar> \<le> ln f / 1000 + 1 / 1000"
    using rnd_error_crude [of "ln f"] L by (simp add: d_def)
  have dpos: "0 < d" using ed L by linarith
  have lo: "1 \<le> n / d" using dn dpos by (simp add: pos_le_divide_eq)
  have "n \<le> 4 * d" using en ed E L by linarith
  then have hi: "n / d \<le> 4" using dpos by (simp add: pos_divide_le_eq)
  have "rnd 1 \<le> rnd (n / d)" using lo by (rule rnd_mono)
  then have q1: "1 \<le> rnd (n / d)" by simp
  have "rnd (n / d) \<le> rnd 4" using hi by (rule rnd_mono)
  then have q4: "rnd (n / d) \<le> 4" by simp
  have t: "trunc (rnd (n / d)) = \<lfloor>rnd (n / d)\<rfloor>" using q1 by (simp add: trunc_def)
  have "1 \<le> \<lfloor>rnd (n / d)\<rfloor>" "\<lfloor>rnd (n / d)\<rfloor> \<le> 4"
    using q1 q4 by (simp_all add: le_floor_iff floor_le_iff)
  with q1 q4 t have "\<exists>k. double_to_int (rnd (n / d)) = Some k \<and> 1 \<le> k \<and> k \<le> 4"
    by (simp add: double_to_int_def)
  moreover have "img_count p = double_to_int (rnd (n / d))"
  proof -
    have zf: "zoom_fact p = f" unfolding assms(2) zoom_fact_double f_def by (rule refl)
    have ze: "zoom_end p = e" unfolding assms(3) zoom_end_double e_def by (rule refl)
    show ?thesis
      using dpos [unfolded d_def] fe(4,5)
      by (simp add: img_count_def assms(1) zf ze fdiv_def flog_def n_def d_def re)
  qed
  ultimately show ?thesis by simp
qed

lemma main_rounds:
  assumes "0 < max_iter p" "0 < img_width p" "0 < img_height p"
      "256 dvd img_width p * img_height p"
    and "zoom_start p = 1" "zoom_fact p = rnd 1.1" "zoom_end p = rnd 1.21"
  shows "\<exists>fs. main p = Some fs \<and> map frame_zoom fs = [1, 4953959590107546 / 2 ^ 52] \<and>
               length fs = 2"
proof -
  from img_count_rounds [OF assms(5-7)] obtain k
    where k: "img_count p = Some k" "1 \<le> k" by blast
  then have k0: "k \<noteq> 0" by simp
  have "length (replicate (nat (img_width p * img_height p * 3)) (0 :: 8 word))
          = nat (img_width p * img_height p * 3)"
    by simp
  from frame_loop_rounds [OF assms(1-4,6,7) k0 this] obtain fs
    where fs: "frame_loop p k (replicate (nat (img_width p * img_height p * 3)) 0) 1 0 = Some fs"
      "map frame_zoom fs = [1, 4953959590107546 / 2 ^ 52]"
    by (elim exE conjE)
  have m: "main p = Some fs" by (simp add: main_def k(1) assms(5) fs(1))
  have "length (map frame_zoom fs) = 2" by (simp only: fs(2)) simp
  then have "length fs = 2" by simp
  with m fs(2) show ?thesis by (intro exI [of _ fs] conjI)
qed

end
